theory Spec2Isabelle
  imports Main
begin

section \<open>Values of the script\<close>

text \<open>
  The script \<^verbatim>\<open>scripts/generate.js\<close> works on what \<^verbatim>\<open>JSON.parse\<close> returns. A parsed
  document is a tree: \<open>JNum\<close> carries the number as the text that \<^verbatim>\<open>String(n)\<close> gives for
  it (one text per number value; \<^verbatim>\<open>JSON.parse\<close> never yields \<^verbatim>\<open>NaN\<close>), and \<open>JObj\<close> carries
  the members of the object in the order of the document, a later member with the same
  name replacing the earlier one.
\<close>

datatype json =
    JNull
  | JBool bool
  | JNum string
  | JStr string
  | JArr "json list"
  | JObj "(string \<times> json) list"

datatype error = TypeError

text \<open>The own property of a parsed object under a name; \<open>None\<close> when there is none.\<close>

definition own_property :: "(string \<times> json) list \<Rightarrow> string \<Rightarrow> json option" where
  "own_property kvs k = map_of (rev kvs) k"

text \<open>
  A property read \<^verbatim>\<open>item.k\<close> or \<^verbatim>\<open>item[k]\<close>, for the names the script reads (\<^verbatim>\<open>type\<close>,
  \<^verbatim>\<open>number\<close> and the required keys). None of them is defined by a built-in prototype or is
  an index or \<^verbatim>\<open>length\<close>, so the read finds an own property of an object or gives
  \<^verbatim>\<open>undefined\<close> (\<open>None\<close>); reading a property of \<^verbatim>\<open>null\<close> throws.
\<close>

fun get_prop :: "json \<Rightarrow> string \<Rightarrow> error + json option" where
  "get_prop JNull k = Inl TypeError"
| "get_prop (JObj kvs) k = Inr (own_property kvs k)"
| "get_prop v k = Inr None"

text \<open>
  The call \<^verbatim>\<open>item.hasOwnProperty(key)\<close>, for the same names. The method is looked up on the
  item like any other property: a parsed object that has a member named
  \<^verbatim>\<open>hasOwnProperty\<close> hides the built-in method behind a value that cannot be called.
\<close>

fun hasOwnProperty :: "json \<Rightarrow> string \<Rightarrow> error + bool" where
  "hasOwnProperty JNull key = Inl TypeError"
| "hasOwnProperty (JObj kvs) key =
     (if own_property kvs ''hasOwnProperty'' \<noteq> None then Inl TypeError
      else Inr (own_property kvs key \<noteq> None))"
| "hasOwnProperty v key = Inr False"

fun typeof :: "json option \<Rightarrow> string" where
  "typeof None = ''undefined''"
| "typeof (Some JNull) = ''object''"
| "typeof (Some (JBool b)) = ''boolean''"
| "typeof (Some (JNum n)) = ''number''"
| "typeof (Some (JStr s)) = ''string''"
| "typeof (Some (JArr xs)) = ''object''"
| "typeof (Some (JObj kvs)) = ''object''"

text \<open>
  String conversion, as \<^verbatim>\<open>Array.prototype.join\<close> applies it to the elements of an array. An
  object converts through its \<^verbatim>\<open>toString\<close>; a member of that name hides the built-in
  method behind a value that cannot be called, and the conversion throws.
\<close>

fun ToString :: "json \<Rightarrow> error + string"
  and join :: "json list \<Rightarrow> error + string" where
  "ToString JNull = Inr ''null''"
| "ToString (JBool b) = Inr (if b then ''true'' else ''false'')"
| "ToString (JNum n) = Inr n"
| "ToString (JStr s) = Inr s"
| "ToString (JArr xs) = join xs"
| "ToString (JObj kvs) =
     (if own_property kvs ''toString'' \<noteq> None then Inl TypeError
      else Inr ''[object Object]'')"
| "join [] = Inr ''''"
| "join (x # xs) =
     (case (if x = JNull then Inr '''' else ToString x) of
        Inl e \<Rightarrow> Inl e
      | Inr s \<Rightarrow>
          (if xs = [] then Inr s
           else (case join xs of Inl e \<Rightarrow> Inl e | Inr r \<Rightarrow> Inr (s @ '','' @ r))))"

text \<open>
  The comparison \<^verbatim>\<open>x == "audio"\<close>. \<^verbatim>\<open>undefined\<close> and \<^verbatim>\<open>null\<close> equal no string; a
  number or a boolean is compared with the number the text \<^verbatim>\<open>audio\<close> converts to, which is
  \<^verbatim>\<open>NaN\<close> and equals nothing; an array or an object is converted to a string first.
\<close>

fun loose_equals_audio :: "json option \<Rightarrow> error + bool" where
  "loose_equals_audio None = Inr False"
| "loose_equals_audio (Some JNull) = Inr False"
| "loose_equals_audio (Some (JBool b)) = Inr False"
| "loose_equals_audio (Some (JNum n)) = Inr False"
| "loose_equals_audio (Some (JStr s)) = Inr (s = ''audio'')"
| "loose_equals_audio (Some v) =
     (case ToString v of Inl e \<Rightarrow> Inl e | Inr s \<Rightarrow> Inr (s = ''audio''))"

text \<open>
  What a report keeps of \<^verbatim>\<open>item.number\<close>. Primitive values compare by value. Objects and
  arrays compare by reference, and every object of the merged collection is a separate
  allocation of the parser, so the object read from the item at position \<open>i\<close> is
  \<open>Reference i\<close>.
\<close>

datatype jsvalue =
    Undefined
  | Null
  | Boolean bool
  | Number string
  | String string
  | Reference nat

fun value_at :: "nat \<Rightarrow> json option \<Rightarrow> jsvalue" where
  "value_at i None = Undefined"
| "value_at i (Some JNull) = Null"
| "value_at i (Some (JBool b)) = Boolean b"
| "value_at i (Some (JNum n)) = Number n"
| "value_at i (Some (JStr s)) = String s"
| "value_at i (Some v) = Reference i"

definition item_number :: "nat \<Rightarrow> json \<Rightarrow> error + jsvalue" where
  "item_number i item =
     (case get_prop item ''number'' of Inl e \<Rightarrow> Inl e | Inr v \<Rightarrow> Inr (value_at i v))"

section \<open>The shape validator\<close>

definition videoRequiredKeys :: "string list" where
  "videoRequiredKeys = [''number'', ''name'', ''code'', ''type'', ''category'', ''playlist'']"

definition audioRequiredKeys :: "string list" where
  "audioRequiredKeys = [''number'', ''name'', ''code'', ''type'', ''audio'']"

record invalid_item =
  channel :: jsvalue
  missing :: "string list"

record validation =
  isValid :: bool
  invalidItems :: "invalid_item list"

text \<open>
  \<^verbatim>\<open>if (item.type == "audio") currentRequiredKeys = audioRequiredKeys\<close>, the other items
  keeping \<^verbatim>\<open>videoRequiredKeys\<close>.
\<close>

definition currentRequiredKeys :: "json \<Rightarrow> error + string list" where
  "currentRequiredKeys item =
     (case get_prop item ''type'' of
        Inl e \<Rightarrow> Inl e
      | Inr t \<Rightarrow>
          (case loose_equals_audio t of
             Inl e \<Rightarrow> Inl e
           | Inr b \<Rightarrow> Inr (if b then audioRequiredKeys else videoRequiredKeys)))"

text \<open>\<^verbatim>\<open>item.hasOwnProperty(key) && typeof item[key] === "string"\<close>\<close>

definition hasKey :: "json \<Rightarrow> string \<Rightarrow> error + bool" where
  "hasKey item key =
     (case hasOwnProperty item key of
        Inl e \<Rightarrow> Inl e
      | Inr own \<Rightarrow>
          (if \<not> own then Inr False
           else (case get_prop item key of
                   Inl e \<Rightarrow> Inl e
                 | Inr v \<Rightarrow> Inr (typeof v = ''string''))))"

text \<open>
  \<^verbatim>\<open>currentRequiredKeys.every(...)\<close> with the callback that pushes onto \<^verbatim>\<open>missingKeys\<close>:
  the keys left to visit and the keys pushed so far; the result is \<^verbatim>\<open>hasAllKeys\<close> and the
  final \<^verbatim>\<open>missingKeys\<close>. \<^verbatim>\<open>every\<close> stops at the first key for which the callback returns
  false.
\<close>

fun every :: "json \<Rightarrow> string list \<Rightarrow> string list \<Rightarrow> error + bool \<times> string list" where
  "every item [] missingKeys = Inr (True, missingKeys)"
| "every item (key # keys) missingKeys =
     (case hasKey item key of
        Inl e \<Rightarrow> Inl e
      | Inr present \<Rightarrow>
          (if present then every item keys missingKeys
           else Inr (False, missingKeys @ [key])))"

text \<open>The rest of the \<^verbatim>\<open>forEach\<close> callback once the required keys are chosen.\<close>

definition check_item :: "string list \<Rightarrow> nat \<Rightarrow> json \<Rightarrow> error + invalid_item option" where
  "check_item keys index item =
     (case every item keys [] of
        Inl e \<Rightarrow> Inl e
      | Inr (hasAllKeys, missingKeys) \<Rightarrow>
          (if \<not> hasAllKeys then
             (case item_number index item of
                Inl e \<Rightarrow> Inl e
              | Inr n \<Rightarrow> Inr (Some \<lparr>channel = n, missing = missingKeys\<rparr>))
           else Inr None))"

text \<open>The \<^verbatim>\<open>forEach\<close> callback: the entry pushed onto \<^verbatim>\<open>invalidItems\<close>, if any.\<close>

definition validate_item :: "nat \<Rightarrow> json \<Rightarrow> error + invalid_item option" where
  "validate_item index item =
     (case currentRequiredKeys item of
        Inl e \<Rightarrow> Inl e
      | Inr keys \<Rightarrow> check_item keys index item)"

fun forEach_item :: "(nat \<times> json) list \<Rightarrow> invalid_item list \<Rightarrow> error + invalid_item list" where
  "forEach_item [] invalid = Inr invalid"
| "forEach_item ((index, item) # rest) invalid =
     (case validate_item index item of
        Inl e \<Rightarrow> Inl e
      | Inr None \<Rightarrow> forEach_item rest invalid
      | Inr (Some entry) \<Rightarrow> forEach_item rest (invalid @ [entry]))"

definition validateItemFormat :: "json list \<Rightarrow> error + validation" where
  "validateItemFormat data =
     (case forEach_item (enumerate 0 data) [] of
        Inl e \<Rightarrow> Inl e
      | Inr invalid \<Rightarrow> Inr \<lparr>isValid = (length invalid = 0), invalidItems = invalid\<rparr>)"

section \<open>The uniqueness validator\<close>

record duplicate =
  channel :: jsvalue
  count :: nat

record check =
  hasDuplicate :: bool
  duplicates :: "duplicate list"

text \<open>
  \<^verbatim>\<open>duplicateEntry.count += 1\<close>, where \<^verbatim>\<open>duplicateEntry\<close> is the entry that
  \<^verbatim>\<open>duplicates.find((d) => d.channel === item.number)\<close> returned: the first entry of the
  list with that channel.
\<close>

fun increment_count :: "jsvalue \<Rightarrow> duplicate list \<Rightarrow> duplicate list" where
  "increment_count n [] = []"
| "increment_count n (d # ds) =
     (if duplicate.channel d = n then d\<lparr>count := count d + 1\<rparr> # ds
      else d # increment_count n ds)"

text \<open>The \<^verbatim>\<open>for (const item of data)\<close> loop, with the set \<^verbatim>\<open>existing\<close> and the list \<^verbatim>\<open>duplicates\<close>.\<close>

fun for_of_item ::
  "(nat \<times> json) list \<Rightarrow> jsvalue set \<Rightarrow> duplicate list \<Rightarrow> error + duplicate list" where
  "for_of_item [] existing dups = Inr dups"
| "for_of_item ((index, item) # rest) existing dups =
     (case item_number index item of
        Inl e \<Rightarrow> Inl e
      | Inr n \<Rightarrow>
          (if n \<in> existing then
             (case find (\<lambda>d. duplicate.channel d = n) dups of
                Some duplicateEntry \<Rightarrow> for_of_item rest existing (increment_count n dups)
              | None \<Rightarrow> for_of_item rest existing (dups @ [\<lparr>channel = n, count = 2\<rparr>]))
           else for_of_item rest (insert n existing) dups))"

definition checkForDuplicateNumber :: "json list \<Rightarrow> error + check" where
  "checkForDuplicateNumber data =
     (case for_of_item (enumerate 0 data) {} [] of
        Inl e \<Rightarrow> Inl e
      | Inr dups \<Rightarrow> Inr \<lparr>hasDuplicate = (length dups > 0), duplicates = dups\<rparr>)"

section \<open>The loader\<close>

text \<open>
  The files the script touches. \<open>lists_dir\<close> is what \<^verbatim>\<open>fs.readdir\<close> gives for the directory
  \<^verbatim>\<open>../lists\<close>: \<open>None\<close> when it reports an error, else the entries in the order of the
  enumeration, each with the value of \<^verbatim>\<open>JSON.parse(fs.readFileSync(filePath, "utf-8"))\<close>
  for it, \<open>None\<close> when reading or parsing throws. \<open>list_json\<close> is the content of
  \<^verbatim>\<open>../list.json\<close>, \<open>None\<close> while the file does not exist, and \<open>writable\<close> tells whether
  \<^verbatim>\<open>fs.writeFileSync\<close> succeeds on it.
\<close>

record files =
  lists_dir :: "(string \<times> json option) list option"
  list_json :: "string option"
  writable :: bool

definition listsDirectoryPath :: string where
  "listsDirectoryPath = ''../lists''"

definition savePath :: string where
  "savePath = ''../list.json''"

text \<open>What a run does that can be seen from outside, in the order it happens.\<close>

datatype event =
    Called string
  | Console_error string
  | Console_table_invalidItems "invalid_item list"
  | Console_table_duplicates "duplicate list"
  | Console_log string
  | WriteFileSync string string

text \<open>
  \<^verbatim>\<open>mergedData.concat(fileData)\<close>: the elements of an array are appended, any other value is
  appended as one element.
\<close>

fun concat_value :: "json list \<Rightarrow> json \<Rightarrow> json list" where
  "concat_value mergedData (JArr xs) = mergedData @ xs"
| "concat_value mergedData v = mergedData @ [v]"

text \<open>The \<^verbatim>\<open>files.forEach\<close> loop with its \<^verbatim>\<open>try\<close>/\<^verbatim>\<open>catch\<close>.\<close>

fun forEach_file ::
  "(string \<times> json option) list \<Rightarrow> json list \<Rightarrow> event list \<Rightarrow> json list \<times> event list" where
  "forEach_file [] mergedData log = (mergedData, log)"
| "forEach_file ((file, parsed) # rest) mergedData log =
     (case parsed of
        Some fileData \<Rightarrow> forEach_file rest (concat_value mergedData fileData) log
      | None \<Rightarrow>
          forEach_file rest mergedData
            (log @ [Console_error (''Error parsing file '' @ file @ '':'')]))"

text \<open>
  \<^verbatim>\<open>mergeData\<close>: the value the promise resolves to, \<open>None\<close> when it never settles (the
  callback returns on a directory error without resolving or rejecting), and the
  console output.
\<close>

definition mergeData :: "files \<Rightarrow> json list option \<times> event list" where
  "mergeData fs =
     (case lists_dir fs of
        None \<Rightarrow> (None, [Console_error ''Error reading directory:''])
      | Some dir \<Rightarrow>
          (case forEach_file dir [] [] of (mergedData, log) \<Rightarrow> (Some mergedData, log)))"

section \<open>The orchestrator\<close>

text \<open>Decimal text of a number, as the template literal prints \<^verbatim>\<open>total\<close>.\<close>

fun string_of_nat :: "nat \<Rightarrow> string" where
  "string_of_nat n =
     (if n < 10 then [char_of (48 + n)]
      else string_of_nat (n div 10) @ [char_of (48 + n mod 10)])"

declare string_of_nat.simps [simp del]

text \<open>
  The body of the asynchronous function that the script calls at once. \<open>stringify\<close> is
  \<^verbatim>\<open>JSON.stringify(value, null, indent)\<close>. The result is the files after the run and the
  events of the run.
\<close>

definition main :: "(json \<Rightarrow> nat \<Rightarrow> string) \<Rightarrow> files \<Rightarrow> files \<times> event list" where
  "main stringify fs =
     (case mergeData fs of
        (None, log) \<Rightarrow> (fs, log)
      | (Some mergedData, log) \<Rightarrow>
          (case validateItemFormat mergedData of
             Inl e \<Rightarrow> (fs, log @ [Called ''validateItemFormat'', Console_error ''An error occurred:''])
           | Inr validation \<Rightarrow>
               (if \<not> isValid validation then
                  (fs, log @ [Called ''validateItemFormat'',
                              Console_error ''Invalid items found:'',
                              Console_table_invalidItems (invalidItems validation)])
                else
                  (case checkForDuplicateNumber mergedData of
                     Inl e \<Rightarrow>
                       (fs, log @ [Called ''validateItemFormat'',
                                   Called ''checkForDuplicateNumber'',
                                   Console_error ''An error occurred:''])
                   | Inr check \<Rightarrow>
                       (if hasDuplicate check then
                          (fs, log @ [Called ''validateItemFormat'',
                                      Called ''checkForDuplicateNumber'',
                                      Console_error ''Duplicates found:'',
                                      Console_table_duplicates (duplicates check)])
                        else
                          (let total = length mergedData;
                               dataString = stringify (JArr mergedData) 2
                           in if writable fs then
                                (fs\<lparr>list_json := Some dataString\<rparr>,
                                 log @ [Called ''validateItemFormat'',
                                        Called ''checkForDuplicateNumber'',
                                        WriteFileSync savePath dataString,
                                        Console_log (''Success: Total of '' @ string_of_nat total
                                                     @ '' entries written to list.json'')])
                              else
                                (fs, log @ [Called ''validateItemFormat'',
                                            Called ''checkForDuplicateNumber'',
                                            Console_error ''An error occurred:''])))))))"

section \<open>What the specification speaks of\<close>

text \<open>
  A field is present when the record has that key and the value under it is a string.
\<close>

definition is_string_field :: "json \<Rightarrow> string \<Rightarrow> bool" where
  "is_string_field item key =
     (case item of
        JObj kvs \<Rightarrow> (case own_property kvs key of Some (JStr s) \<Rightarrow> True | _ \<Rightarrow> False)
      | _ \<Rightarrow> False)"

text \<open>
  A record is of the audio variant when its \<^verbatim>\<open>type\<close> field is the string \<^verbatim>\<open>audio\<close>, and of
  the video variant otherwise, also when it has no \<^verbatim>\<open>type\<close> field.
\<close>

definition type_is_audio :: "json \<Rightarrow> bool" where
  "type_is_audio item =
     (case item of JObj kvs \<Rightarrow> own_property kvs ''type'' = Some (JStr ''audio'') | _ \<Rightarrow> False)"

definition variant_keys :: "json \<Rightarrow> string list" where
  "variant_keys item = (if type_is_audio item then audioRequiredKeys else videoRequiredKeys)"

text \<open>All the required fields of its variant that a record is missing, in order.\<close>

definition missing_fields :: "json \<Rightarrow> string list" where
  "missing_fields item = filter (\<lambda>key. \<not> is_string_field item key) (variant_keys item)"

definition satisfies_schema :: "json \<Rightarrow> bool" where
  "satisfies_schema item = (\<forall>key \<in> set (variant_keys item). is_string_field item key)"

text \<open>The value under \<^verbatim>\<open>number\<close>, and the values of a whole collection by position.\<close>

definition number_field :: "json \<Rightarrow> json option" where
  "number_field item = (case item of JObj kvs \<Rightarrow> own_property kvs ''number'' | _ \<Rightarrow> None)"

definition numbers :: "json list \<Rightarrow> jsvalue list" where
  "numbers data = map (\<lambda>(i, item). value_at i (number_field item)) (enumerate 0 data)"

text \<open>
  The values of a list at the positions where a value is met for the second time, in the
  order of these positions.
\<close>

definition second_occurrences :: "'a list \<Rightarrow> 'a list" where
  "second_occurrences xs =
     map (\<lambda>j. xs ! j) (filter (\<lambda>j. count_list (take j xs) (xs ! j) = 1) [0..<length xs])"

text \<open>
  The built-in \<^verbatim>\<open>hasOwnProperty\<close> is reachable from an item: the item is not \<^verbatim>\<open>null\<close> and
  has no member of that name.
\<close>

definition callable_hasOwnProperty :: "json \<Rightarrow> bool" where
  "callable_hasOwnProperty item =
     (case item of
        JNull \<Rightarrow> False
      | JObj kvs \<Rightarrow> own_property kvs ''hasOwnProperty'' = None
      | _ \<Rightarrow> True)"

text \<open>
  What holds of \<^verbatim>\<open>duplicates\<close> in the loop of the uniqueness validator once the values
  \<open>seen\<close> have been visited.
\<close>

definition duplicates_invariant :: "jsvalue list \<Rightarrow> duplicate list \<Rightarrow> bool" where
  "duplicates_invariant seen dups =
     (map duplicate.channel dups = second_occurrences seen
      \<and> (\<forall>d \<in> set dups. count d = count_list seen (duplicate.channel d)))"

text \<open>
  The records a file gives to the merged collection: the elements of the array it holds,
  the value itself when it is not an array, nothing when the file cannot be read or
  parsed.
\<close>

definition file_records :: "json option \<Rightarrow> json list" where
  "file_records parsed = (case parsed of None \<Rightarrow> [] | Some (JArr xs) \<Rightarrow> xs | Some v \<Rightarrow> [v])"

text \<open>The console output of the loader for the files it skips.\<close>

definition parse_errors :: "(string \<times> json option) list \<Rightarrow> event list" where
  "parse_errors dir =
     map (\<lambda>(file, parsed). Console_error (''Error parsing file '' @ file @ '':''))
       (filter (\<lambda>(file, parsed). parsed = None) dir)"

text \<open>The records of all files of a directory, in the order of the enumeration.\<close>

definition merged_records :: "(string \<times> json option) list \<Rightarrow> json list" where
  "merged_records dir = concat (map (\<lambda>(file, parsed). file_records parsed) dir)"

section \<open>The validators on a store\<close>

text \<open>
  The validators push onto arrays, add to a set and assign to a field of an object they
  find through another array. To see what these writes can reach, the same two functions
  are written once more over a store: a list of cells, the address of a cell being its
  position, a new cell being appended. A value is a primitive or \<open>Reference a\<close> for the
  cell at address \<open>a\<close>. \<open>ObjectCell\<close> is an object with any members (a parsed record),
  \<open>ArrayCell\<close> an array, \<open>SetCell\<close> a \<^verbatim>\<open>Set\<close>; the four others are the object
  literals of the script: \<^verbatim>\<open>{channel, missing}\<close>, \<^verbatim>\<open>{isValid, invalidItems}\<close>,
  \<^verbatim>\<open>{channel, count}\<close> and \<^verbatim>\<open>{hasDuplicate, duplicates}\<close>. The two arrays of required
  keys are literals that nothing writes to and stay lists.
\<close>

datatype cell =
    ObjectCell "(string \<times> jsvalue) list"
  | ArrayCell "jsvalue list"
  | SetCell "jsvalue list"
  | InvalidItemCell jsvalue jsvalue
  | ValidationCell bool jsvalue
  | DuplicateCell jsvalue nat
  | CheckCell bool jsvalue

type_synonym store = "cell list"

definition cell_at :: "store \<Rightarrow> nat \<Rightarrow> cell option" where
  "cell_at h a = (if a < length h then Some (h ! a) else None)"

definition alloc :: "store \<Rightarrow> cell \<Rightarrow> store \<times> nat" where
  "alloc h c = (h @ [c], length h)"

text \<open>\<^verbatim>\<open>item.k\<close> and \<^verbatim>\<open>item.hasOwnProperty(key)\<close> for the names the script uses.\<close>

fun get_prop_store :: "store \<Rightarrow> jsvalue \<Rightarrow> string \<Rightarrow> error + jsvalue" where
  "get_prop_store h Undefined k = Inl TypeError"
| "get_prop_store h Null k = Inl TypeError"
| "get_prop_store h (Reference a) k =
     (case cell_at h a of
        Some (ObjectCell fs) \<Rightarrow> Inr (case map_of fs k of None \<Rightarrow> Undefined | Some v \<Rightarrow> v)
      | _ \<Rightarrow> Inr Undefined)"
| "get_prop_store h v k = Inr Undefined"

fun hasOwnProperty_store :: "store \<Rightarrow> jsvalue \<Rightarrow> string \<Rightarrow> error + bool" where
  "hasOwnProperty_store h Undefined key = Inl TypeError"
| "hasOwnProperty_store h Null key = Inl TypeError"
| "hasOwnProperty_store h (Reference a) key =
     (case cell_at h a of
        Some (ObjectCell fs) \<Rightarrow>
          (if map_of fs ''hasOwnProperty'' \<noteq> None then Inl TypeError
           else Inr (map_of fs key \<noteq> None))
      | _ \<Rightarrow> Inr False)"
| "hasOwnProperty_store h v key = Inr False"

text \<open>\<^verbatim>\<open>array.push(v)\<close> on the array at an address.\<close>

definition push :: "store \<Rightarrow> nat \<Rightarrow> jsvalue \<Rightarrow> error + store" where
  "push h a v =
     (case cell_at h a of
        Some (ArrayCell xs) \<Rightarrow> Inr (h[a := ArrayCell (xs @ [v])])
      | _ \<Rightarrow> Inl TypeError)"

definition hasKey_store :: "store \<Rightarrow> jsvalue \<Rightarrow> string \<Rightarrow> error + bool" where
  "hasKey_store h item key =
     (case hasOwnProperty_store h item key of
        Inl e \<Rightarrow> Inl e
      | Inr own \<Rightarrow>
          (if \<not> own then Inr False
           else (case get_prop_store h item key of
                   Inl e \<Rightarrow> Inl e
                 | Inr v \<Rightarrow> Inr (case v of String s \<Rightarrow> True | _ \<Rightarrow> False))))"

fun every_store ::
  "store \<Rightarrow> jsvalue \<Rightarrow> string list \<Rightarrow> nat \<Rightarrow> error + store \<times> bool" where
  "every_store h item [] missingKeys = Inr (h, True)"
| "every_store h item (key # keys) missingKeys =
     (case hasKey_store h item key of
        Inl e \<Rightarrow> Inl e
      | Inr present \<Rightarrow>
          (if present then every_store h item keys missingKeys
           else (case push h missingKeys (String key) of
                   Inl e \<Rightarrow> Inl e
                 | Inr h' \<Rightarrow> Inr (h', False))))"

text \<open>
  The callback of \<^verbatim>\<open>data.forEach\<close>. \<open>equals_audio\<close> is the comparison
  \<^verbatim>\<open>item.type == "audio"\<close>: it may read the store to convert an array or an object and
  has no store to give back, the conversions of plain data being built-in and free of
  effects.
\<close>

definition validate_item_store ::
  "(store \<Rightarrow> jsvalue \<Rightarrow> error + bool) \<Rightarrow> store \<Rightarrow> nat \<Rightarrow> jsvalue \<Rightarrow> error + store" where
  "validate_item_store equals_audio h invalid item =
     (case alloc h (ArrayCell []) of
        (h1, missingKeys) \<Rightarrow>
          (case get_prop_store h1 item ''type'' of
             Inl e \<Rightarrow> Inl e
           | Inr t \<Rightarrow>
               (case equals_audio h1 t of
                  Inl e \<Rightarrow> Inl e
                | Inr b \<Rightarrow>
                    (case every_store h1 item
                            (if b then audioRequiredKeys else videoRequiredKeys) missingKeys of
                       Inl e \<Rightarrow> Inl e
                     | Inr (h2, hasAllKeys) \<Rightarrow>
                         (if \<not> hasAllKeys then
                            (case get_prop_store h2 item ''number'' of
                               Inl e \<Rightarrow> Inl e
                             | Inr n \<Rightarrow>
                                 (case alloc h2 (InvalidItemCell n (Reference missingKeys)) of
                                    (h3, entry) \<Rightarrow> push h3 invalid (Reference entry)))
                          else Inr h2)))))"

text \<open>
  \<^verbatim>\<open>data.forEach\<close>: the length is read once, the element under each index when its turn
  comes, from the store as it is then.
\<close>

function forEach_store ::
  "(store \<Rightarrow> jsvalue \<Rightarrow> error + bool) \<Rightarrow> store \<Rightarrow> nat \<Rightarrow> nat \<Rightarrow> nat \<Rightarrow> nat \<Rightarrow> error + store" where
  "forEach_store equals_audio h data len k invalid =
     (if k < len then
        (case cell_at h data of
           Some (ArrayCell xs) \<Rightarrow>
             (if k < length xs then
                (case validate_item_store equals_audio h invalid (xs ! k) of
                   Inl e \<Rightarrow> Inl e
                 | Inr h' \<Rightarrow> forEach_store equals_audio h' data len (Suc k) invalid)
              else forEach_store equals_audio h data len (Suc k) invalid)
         | _ \<Rightarrow> Inl TypeError)
      else Inr h)"
  by pat_completeness auto
termination
  by (relation "measure (\<lambda>(equals_audio, h, data, len, k, invalid). len - k)") auto

definition validateItemFormat_store ::
  "(store \<Rightarrow> jsvalue \<Rightarrow> error + bool) \<Rightarrow> store \<Rightarrow> nat \<Rightarrow> error + store \<times> nat" where
  "validateItemFormat_store equals_audio h data =
     (case alloc h (ArrayCell []) of
        (h1, invalid) \<Rightarrow>
          (case cell_at h1 data of
             Some (ArrayCell xs) \<Rightarrow>
               (case forEach_store equals_audio h1 data (length xs) 0 invalid of
                  Inl e \<Rightarrow> Inl e
                | Inr h2 \<Rightarrow>
                    (case cell_at h2 invalid of
                       Some (ArrayCell entries) \<Rightarrow>
                         Inr (alloc h2 (ValidationCell (length entries = 0)
                                          (Reference invalid)))
                     | _ \<Rightarrow> Inl TypeError))
           | _ \<Rightarrow> Inl TypeError))"

text \<open>
  \<^verbatim>\<open>duplicates.find((d) => d.channel === item.number)\<close>: the address of the first entry
  with that channel. The array is local to the function and holds nothing but references
  to the entries the loop pushed, which are the cells the search looks at.
\<close>

fun find_entry :: "store \<Rightarrow> jsvalue list \<Rightarrow> jsvalue \<Rightarrow> nat option" where
  "find_entry h [] n = None"
| "find_entry h (d # ds) n =
     (case d of
        Reference a \<Rightarrow>
          (case cell_at h a of
             Some (DuplicateCell ch c) \<Rightarrow> (if ch = n then Some a else find_entry h ds n)
           | _ \<Rightarrow> find_entry h ds n)
      | _ \<Rightarrow> find_entry h ds n)"

text \<open>The body of the \<^verbatim>\<open>for\<close> loop, with the addresses of \<^verbatim>\<open>existing\<close> and \<^verbatim>\<open>duplicates\<close>.\<close>

definition for_of_body :: "store \<Rightarrow> jsvalue \<Rightarrow> nat \<Rightarrow> nat \<Rightarrow> error + store" where
  "for_of_body h item existing dups =
     (case get_prop_store h item ''number'' of
        Inl e \<Rightarrow> Inl e
      | Inr n \<Rightarrow>
          (case cell_at h existing of
             Some (SetCell vs) \<Rightarrow>
               (if n \<in> set vs then
                  (case cell_at h dups of
                     Some (ArrayCell ds) \<Rightarrow>
                       (case find_entry h ds n of
                          Some a \<Rightarrow>
                            (case cell_at h a of
                               Some (DuplicateCell ch c) \<Rightarrow> Inr (h[a := DuplicateCell ch (c + 1)])
                             | _ \<Rightarrow> Inl TypeError)
                        | None \<Rightarrow>
                            (case alloc h (DuplicateCell n 2) of
                               (h1, entry) \<Rightarrow> push h1 dups (Reference entry)))
                   | _ \<Rightarrow> Inl TypeError)
                else Inr (h[existing := SetCell (vs @ [n])]))
           | _ \<Rightarrow> Inl TypeError))"

text \<open>
  \<^verbatim>\<open>for (const item of data)\<close>: the iterator compares its index with the length the
  array has at that moment, so the loop ends only if the array stops growing; \<open>None\<close> is
  a loop that does not end.
\<close>

partial_function (option) for_of_store ::
  "store \<Rightarrow> nat \<Rightarrow> nat \<Rightarrow> nat \<Rightarrow> nat \<Rightarrow> (error + store) option" where
  "for_of_store h data i existing dups =
     (case cell_at h data of
        Some (ArrayCell xs) \<Rightarrow>
          (if i < length xs then
             (case for_of_body h (xs ! i) existing dups of
                Inl e \<Rightarrow> Some (Inl e)
              | Inr h' \<Rightarrow> for_of_store h' data (Suc i) existing dups)
           else Some (Inr h))
      | _ \<Rightarrow> Some (Inl TypeError))"

declare for_of_store.simps [code]

definition checkForDuplicateNumber_store :: "store \<Rightarrow> nat \<Rightarrow> (error + store \<times> nat) option" where
  "checkForDuplicateNumber_store h data =
     (case alloc h (SetCell []) of
        (h1, existing) \<Rightarrow>
          (case alloc h1 (ArrayCell []) of
             (h2, dups) \<Rightarrow>
               (case for_of_store h2 data 0 existing dups of
                  None \<Rightarrow> None
                | Some (Inl e) \<Rightarrow> Some (Inl e)
                | Some (Inr h3) \<Rightarrow>
                    (case cell_at h3 dups of
                       Some (ArrayCell ds) \<Rightarrow>
                         Some (Inr (alloc h3 (CheckCell (length ds > 0) (Reference dups))))
                     | _ \<Rightarrow> Some (Inl TypeError)))))"


text \<open>
  The cells below an address are the same in two stores, the second being at least as
  long as the first.
\<close>

definition unchanged_below :: "nat \<Rightarrow> store \<Rightarrow> store \<Rightarrow> bool" where
  "unchanged_below n h h' = (length h \<le> length h' \<and> take n h' = take n h)"

text \<open>Every entry that the array at \<open>dups\<close> refers to lies at or above an address.\<close>

definition fresh_entries :: "nat \<Rightarrow> store \<Rightarrow> nat \<Rightarrow> bool" where
  "fresh_entries n h dups =
     (\<forall>ds a. cell_at h dups = Some (ArrayCell ds) \<longrightarrow> Reference a \<in> set ds \<longrightarrow> n \<le> a)"

section \<open>Properties of the shape validator\<close>

lemma hasKey_eq:
  "hasKey item key =
     (if callable_hasOwnProperty item then Inr (is_string_field item key) else Inl TypeError)"
proof (cases item)
  case (JObj kvs)
  show ?thesis
  proof (cases "own_property kvs key")
    case None
    with JObj show ?thesis
      by (simp add: hasKey_def callable_hasOwnProperty_def is_string_field_def)
  next
    case (Some v)
    with JObj show ?thesis
      by (cases v) (auto simp add: hasKey_def callable_hasOwnProperty_def is_string_field_def)
  qed
qed (simp_all add: hasKey_def callable_hasOwnProperty_def is_string_field_def)

lemma every_eq:
  "every item keys mk =
     (if keys = [] then Inr (True, mk)
      else if \<not> callable_hasOwnProperty item then Inl TypeError
      else (case find (\<lambda>k. \<not> is_string_field item k) keys of
              None \<Rightarrow> Inr (True, mk)
            | Some k \<Rightarrow> Inr (False, mk @ [k])))"
proof (induction keys)
  case Nil
  show ?case by simp
next
  case (Cons k ks)
  show ?case
  proof (cases "callable_hasOwnProperty item")
    case False
    then show ?thesis by (simp add: hasKey_eq)
  next
    case True
    then show ?thesis using Cons by (cases ks) (simp_all add: hasKey_eq)
  qed
qed

lemma check_item_eq:
  "check_item keys index item =
     (if keys = [] then Inr None
      else if \<not> callable_hasOwnProperty item then Inl TypeError
      else (case find (\<lambda>k. \<not> is_string_field item k) keys of
              None \<Rightarrow> Inr None
            | Some k \<Rightarrow>
                Inr (Some \<lparr>invalid_item.channel = value_at index (number_field item),
                           missing = [k]\<rparr>)))"
proof (cases item)
  case JNull
  then show ?thesis
    by (simp add: check_item_def every_eq callable_hasOwnProperty_def)
qed (auto simp add: check_item_def every_eq item_number_def number_field_def
       split: option.splits)

lemma currentRequiredKeys_cases:
  assumes "currentRequiredKeys item = Inr keys"
  shows "keys = variant_keys item
         \<or> (keys = audioRequiredKeys \<and> \<not> is_string_field item ''type'')"
proof (cases item)
  case (JObj kvs)
  show ?thesis
  proof (cases "own_property kvs ''type''")
    case None
    with JObj assms show ?thesis
      by (simp add: currentRequiredKeys_def variant_keys_def type_is_audio_def)
  next
    case (Some v)
    with JObj assms show ?thesis
      by (cases v)
         (auto simp add: currentRequiredKeys_def variant_keys_def type_is_audio_def
            is_string_field_def split: sum.splits if_splits)
  qed
qed (use assms in \<open>simp_all add: currentRequiredKeys_def variant_keys_def type_is_audio_def\<close>)

lemma currentRequiredKeys_nonempty:
  assumes "currentRequiredKeys item = Inr keys"
  shows "keys \<noteq> []"
  using currentRequiredKeys_cases [OF assms]
  by (auto simp add: variant_keys_def audioRequiredKeys_def videoRequiredKeys_def
        split: if_splits)

lemma check_item_audio_video:
  assumes "\<not> is_string_field item ''type''"
  shows "check_item audioRequiredKeys index item = check_item videoRequiredKeys index item"
  using assms by (simp add: check_item_eq audioRequiredKeys_def videoRequiredKeys_def)

lemma validate_item_variant:
  assumes "currentRequiredKeys item = Inr keys"
  shows "validate_item index item = check_item (variant_keys item) index item"
proof -
  from currentRequiredKeys_cases [OF assms]
  have "check_item keys index item = check_item (variant_keys item) index item"
  proof
    assume "keys = variant_keys item"
    then show ?thesis by simp
  next
    assume a: "keys = audioRequiredKeys \<and> \<not> is_string_field item ''type''"
    then have "\<not> type_is_audio item"
      by (auto simp add: type_is_audio_def is_string_field_def split: json.splits)
    with a show ?thesis
      by (simp add: variant_keys_def check_item_audio_video)
  qed
  with assms show ?thesis by (simp add: validate_item_def)
qed

lemma forEach_item_eq:
  assumes "forEach_item ps acc = Inr res"
  shows "(\<forall>p \<in> set ps. \<exists>r. validate_item (fst p) (snd p) = Inr r)
         \<and> res = acc @ concat (map (\<lambda>p. case validate_item (fst p) (snd p) of
                                             Inr (Some e) \<Rightarrow> [e] | _ \<Rightarrow> []) ps)"
  using assms
proof (induction ps arbitrary: acc)
  case Nil
  then show ?case by simp
next
  case (Cons p ps)
  obtain i item where p: "p = (i, item)" by (cases p)
  show ?case
  proof (cases "validate_item i item")
    case (Inl e)
    with Cons.prems p show ?thesis by simp
  next
    case (Inr r)
    show ?thesis
    proof (cases r)
      case None
      with Inr Cons.prems p have "forEach_item ps acc = Inr res" by simp
      from Cons.IH [OF this] Inr None p show ?thesis by simp
    next
      case (Some e)
      with Inr Cons.prems p have "forEach_item ps (acc @ [e]) = Inr res" by simp
      from Cons.IH [OF this] Inr Some p show ?thesis by simp
    qed
  qed
qed

text \<open>
  Claim C1. The claim asks that the entry of an invalid record lists all the required
  fields the record is missing. \<^verbatim>\<open>every\<close> stops at the first key for which the callback
  returns false, so the callback pushes one key only: for the record
  \<^verbatim>\<open>{"number": "1"}\<close>, which is missing five fields of the video variant, the entry lists
  \<^verbatim>\<open>name\<close> alone.
\<close>

theorem validateItemFormat_lists_first_missing_field_only:
  "validateItemFormat [JObj [(''number'', JStr ''1'')]]
     = Inr \<lparr>isValid = False,
            invalidItems = [\<lparr>invalid_item.channel = String ''1'', missing = [''name'']\<rparr>]\<rparr>
   \<and> missing_fields (JObj [(''number'', JStr ''1'')])
     = [''name'', ''code'', ''type'', ''category'', ''playlist'']"
  by (simp add: validateItemFormat_def validate_item_def currentRequiredKeys_def
        check_item_eq callable_hasOwnProperty_def is_string_field_def own_property_def
        number_field_def videoRequiredKeys_def audioRequiredKeys_def missing_fields_def
        variant_keys_def type_is_audio_def enumerate_eq_zip)

text \<open>The same holds of every entry of every report: it lists exactly one field.\<close>

lemma validate_item_missing_one:
  assumes "validate_item index item = Inr (Some e)"
  shows "\<exists>k. missing e = [k]"
proof -
  from assms obtain keys where k: "currentRequiredKeys item = Inr keys"
    by (auto simp add: validate_item_def split: sum.splits)
  from assms validate_item_variant [OF k, of index] show ?thesis
    by (auto simp add: check_item_eq split: if_splits option.splits)
qed

lemma validateItemFormat_missing_one:
  assumes "validateItemFormat data = Inr v" and "e \<in> set (invalidItems v)"
  shows "length (missing e) = 1"
proof -
  from assms(1) obtain invalid where f: "forEach_item (enumerate 0 data) [] = Inr invalid"
    and v: "invalidItems v = invalid"
    by (auto simp add: validateItemFormat_def split: sum.splits)
  from forEach_item_eq [OF f] assms(2) v
  obtain p where "p \<in> set (enumerate 0 data)"
    and "e \<in> set (case validate_item (fst p) (snd p) of Inr (Some e) \<Rightarrow> [e] | _ \<Rightarrow> [])"
    by auto
  then have "validate_item (fst p) (snd p) = Inr (Some e)"
    by (auto split: sum.splits option.splits)
  from validate_item_missing_one [OF this] show ?thesis by auto
qed

lemma find_as_filter:
  "find P xs = (case filter P xs of [] \<Rightarrow> None | x # rest \<Rightarrow> Some x)"
  by (induction xs) simp_all

lemma validate_item_entry:
  assumes "validate_item index item = Inr r"
  shows "r = (if missing_fields item = [] then None
              else Some \<lparr>invalid_item.channel = value_at index (number_field item),
                         missing = [hd (missing_fields item)]\<rparr>)"
proof -
  from assms obtain keys where k: "currentRequiredKeys item = Inr keys"
    by (auto simp add: validate_item_def split: sum.splits)
  have ne: "variant_keys item \<noteq> []"
    by (simp add: variant_keys_def audioRequiredKeys_def videoRequiredKeys_def)
  from assms validate_item_variant [OF k, of index]
  have c: "check_item (variant_keys item) index item = Inr r" by simp
  with ne have call: "callable_hasOwnProperty item"
    by (auto simp add: check_item_eq split: if_splits)
  from c ne call show ?thesis
    by (auto simp add: check_item_eq find_as_filter missing_fields_def split: list.splits)
qed

text \<open>
  The report of the shape validator, when it returns one: one entry for each record that
  is missing a field, in the order of the records, with the value under \<^verbatim>\<open>number\<close> and
  the first missing field.
\<close>

lemma validateItemFormat_report:
  assumes "validateItemFormat data = Inr v"
  shows "invalidItems v
         = concat (map (\<lambda>(index, item).
                          if missing_fields item = [] then []
                          else [\<lparr>invalid_item.channel = value_at index (number_field item),
                                  missing = [hd (missing_fields item)]\<rparr>])
                     (enumerate 0 data))"
proof -
  from assms obtain invalid where f: "forEach_item (enumerate 0 data) [] = Inr invalid"
    and v: "invalidItems v = invalid"
    by (auto simp add: validateItemFormat_def split: sum.splits)
  have "map (\<lambda>p. case validate_item (fst p) (snd p) of Inr (Some e) \<Rightarrow> [e] | _ \<Rightarrow> [])
          (enumerate 0 data)
        = map (\<lambda>(index, item).
                 if missing_fields item = [] then []
                 else [\<lparr>invalid_item.channel = value_at index (number_field item),
                         missing = [hd (missing_fields item)]\<rparr>])
            (enumerate 0 data)"
  proof (rule map_cong [OF refl])
    fix p assume "p \<in> set (enumerate 0 data)"
    with forEach_item_eq [OF f] obtain r where r: "validate_item (fst p) (snd p) = Inr r"
      by blast
    from validate_item_entry [OF r] r
    show "(case validate_item (fst p) (snd p) of Inr (Some e) \<Rightarrow> [e] | _ \<Rightarrow> [])
          = (case p of (index, item) \<Rightarrow>
               if missing_fields item = [] then []
               else [\<lparr>invalid_item.channel = value_at index (number_field item),
                       missing = [hd (missing_fields item)]\<rparr>])"
      by (simp add: case_prod_beta)
  qed
  with forEach_item_eq [OF f] v show ?thesis by simp
qed

text \<open>
  Whenever the comparison \<^verbatim>\<open>item.type == "audio"\<close> completes, the outcome of the callback
  for a record is the outcome of checking the audio fields if its \<^verbatim>\<open>type\<close> field is the
  string \<^verbatim>\<open>audio\<close>, and of checking the video fields otherwise, also when the record has
  no \<^verbatim>\<open>type\<close> field. The script compares with \<^verbatim>\<open>==\<close>, which also holds of an array
  such as \<^verbatim>\<open>["audio"]\<close>; such a \<^verbatim>\<open>type\<close> is not a string, both key lists agree up to
  \<^verbatim>\<open>type\<close>, and the check stops there at the latest, so the outcome is that of the video
  fields all the same.
\<close>

lemma validate_item_by_literal_type:
  assumes "currentRequiredKeys item = Inr keys"
  shows "validate_item index item
         = check_item (if type_is_audio item then audioRequiredKeys else videoRequiredKeys)
             index item"
  using validate_item_variant [OF assms, of index] by (simp add: variant_keys_def)

lemma validate_item_by_literal_type_example:
  "currentRequiredKeys (JObj [(''number'', JStr ''7''), (''name'', JStr ''N''),
                              (''code'', JStr ''c''), (''type'', JStr ''audio'')])
     = Inr audioRequiredKeys
   \<and> validate_item 0 (JObj [(''number'', JStr ''7''), (''name'', JStr ''N''),
                            (''code'', JStr ''c''), (''type'', JStr ''audio'')])
     = Inr (Some \<lparr>invalid_item.channel = String ''7'', missing = [''audio'']\<rparr>)
   \<and> validate_item 0 (JObj [(''number'', JStr ''7''), (''name'', JStr ''N''),
                            (''code'', JStr ''c'')])
     = Inr (Some \<lparr>invalid_item.channel = String ''7'', missing = [''type'']\<rparr>)"
proof -
  let ?a = "JObj [(''number'', JStr ''7''), (''name'', JStr ''N''),
                  (''code'', JStr ''c''), (''type'', JStr ''audio'')]"
  let ?b = "JObj [(''number'', JStr ''7''), (''name'', JStr ''N''), (''code'', JStr ''c'')]"
  have a: "currentRequiredKeys ?a = Inr audioRequiredKeys"
    by (simp add: currentRequiredKeys_def own_property_def)
  have b: "currentRequiredKeys ?b = Inr videoRequiredKeys"
    by (simp add: currentRequiredKeys_def own_property_def)
  from validate_item_by_literal_type [OF a, of 0] validate_item_by_literal_type [OF b, of 0] a
  show ?thesis
    by (simp add: check_item_eq callable_hasOwnProperty_def is_string_field_def
          own_property_def number_field_def videoRequiredKeys_def audioRequiredKeys_def
          type_is_audio_def)
qed

text \<open>
  Claim C5. The claim has every record whose \<^verbatim>\<open>type\<close> is not the string \<^verbatim>\<open>audio\<close> validated
  against the video fields. The script compares with \<^verbatim>\<open>==\<close>, not with the \<^verbatim>\<open>===\<close> of its
  other comparisons, and \<^verbatim>\<open>==\<close> converts an object to a string first. For the record
  \<^verbatim>\<open>{"number": "7", "name": "N", "code": "c", "type": {"toString": "x"}}\<close> the video
  fields are the ones to check, and checking them reports \<^verbatim>\<open>type\<close> as missing; but the
  member \<^verbatim>\<open>toString\<close> hides the built-in conversion, the comparison throws, and the
  validator reports nothing. For a \<^verbatim>\<open>type\<close> of \<^verbatim>\<open>["audio"]\<close>, which is not the string
  \<^verbatim>\<open>audio\<close> either, the comparison holds and the script takes the audio keys.
\<close>

theorem validate_item_compares_type_loosely:
  "variant_keys (JObj [(''number'', JStr ''7''), (''name'', JStr ''N''), (''code'', JStr ''c''),
                       (''type'', JObj [(''toString'', JStr ''x'')])])
     = videoRequiredKeys
   \<and> check_item videoRequiredKeys 0
         (JObj [(''number'', JStr ''7''), (''name'', JStr ''N''), (''code'', JStr ''c''),
                (''type'', JObj [(''toString'', JStr ''x'')])])
     = Inr (Some \<lparr>invalid_item.channel = String ''7'', missing = [''type'']\<rparr>)
   \<and> currentRequiredKeys
         (JObj [(''number'', JStr ''7''), (''name'', JStr ''N''), (''code'', JStr ''c''),
                (''type'', JObj [(''toString'', JStr ''x'')])])
     = Inl TypeError
   \<and> validate_item 0
         (JObj [(''number'', JStr ''7''), (''name'', JStr ''N''), (''code'', JStr ''c''),
                (''type'', JObj [(''toString'', JStr ''x'')])])
     = Inl TypeError
   \<and> validateItemFormat
         [JObj [(''number'', JStr ''7''), (''name'', JStr ''N''), (''code'', JStr ''c''),
                (''type'', JObj [(''toString'', JStr ''x'')])]]
     = Inl TypeError
   \<and> variant_keys (JObj [(''number'', JStr ''7''), (''type'', JArr [JStr ''audio''])])
     = videoRequiredKeys
   \<and> currentRequiredKeys (JObj [(''number'', JStr ''7''), (''type'', JArr [JStr ''audio''])])
     = Inr audioRequiredKeys"
  by (simp add: validateItemFormat_def validate_item_def currentRequiredKeys_def
        own_property_def check_item_eq callable_hasOwnProperty_def is_string_field_def
        number_field_def videoRequiredKeys_def audioRequiredKeys_def variant_keys_def
        type_is_audio_def enumerate_eq_zip)

text \<open>
  For a \<^verbatim>\<open>type\<close> of \<^verbatim>\<open>["audio"]\<close> the script takes the audio keys, and the outcome is the
  one of the video keys.
\<close>

lemma array_type_selects_audio_keys:
  "currentRequiredKeys (JObj [(''number'', JStr ''7''), (''type'', JArr [JStr ''audio''])])
     = Inr audioRequiredKeys
   \<and> validate_item 0 (JObj [(''number'', JStr ''7''), (''type'', JArr [JStr ''audio''])])
     = check_item videoRequiredKeys 0
         (JObj [(''number'', JStr ''7''), (''type'', JArr [JStr ''audio''])])"
  by (simp add: validate_item_def currentRequiredKeys_def own_property_def
        check_item_eq callable_hasOwnProperty_def is_string_field_def
        number_field_def videoRequiredKeys_def audioRequiredKeys_def)

lemma find_Some_set: "find P xs = Some x \<Longrightarrow> x \<in> set xs \<and> P x"
  by (induction xs) (auto split: if_splits)

text \<open>
  For a record on which the callback completes, the test the validator applies to a field
  holds exactly when the record has the key as an own property with a string under it.
  The record passes exactly when every required key of the chosen list is present in this
  sense, and the key reported for a failing record is one that is absent or holds a value
  that is not a string.
\<close>

lemma hasKey_iff_own_string_property:
  assumes "validate_item index item = Inr r" and "currentRequiredKeys item = Inr keys"
  shows "(\<forall>key \<in> set keys. hasKey item key = Inr (is_string_field item key))
         \<and> ((r = None) = (\<forall>key \<in> set keys. is_string_field item key))
         \<and> (\<forall>e. r = Some e \<longrightarrow>
               (\<exists>key \<in> set keys. missing e = [key] \<and> \<not> is_string_field item key))"
proof -
  from currentRequiredKeys_nonempty [OF assms(2)] have ne: "keys \<noteq> []" .
  from assms have c: "check_item keys index item = Inr r"
    by (simp add: validate_item_def)
  with ne have call: "callable_hasOwnProperty item"
    by (auto simp add: check_item_eq split: if_splits)
  have 1: "\<forall>key \<in> set keys. hasKey item key = Inr (is_string_field item key)"
    using call by (simp add: hasKey_eq)
  have 2: "(r = None) = (\<forall>key \<in> set keys. is_string_field item key)"
    using c ne call
    by (auto simp add: check_item_eq find_None_iff split: option.splits
          dest: find_Some_set)
  have 3: "\<forall>e. r = Some e \<longrightarrow>
               (\<exists>key \<in> set keys. missing e = [key] \<and> \<not> is_string_field item key)"
    using c ne call
    by (auto simp add: check_item_eq split: option.splits dest: find_Some_set)
  from 1 2 3 show ?thesis by blast
qed

lemma hasKey_iff_own_string_property_example:
  "validate_item 0 (JObj [(''number'', JStr ''7''), (''name'', JNum ''5'')])
     = Inr (Some \<lparr>invalid_item.channel = String ''7'', missing = [''name'']\<rparr>)
   \<and> currentRequiredKeys (JObj [(''number'', JStr ''7''), (''name'', JNum ''5'')])
     = Inr videoRequiredKeys
   \<and> hasKey (JObj [(''number'', JStr ''7''), (''name'', JNum ''5'')]) ''number'' = Inr True
   \<and> hasKey (JObj [(''number'', JStr ''7''), (''name'', JNum ''5'')]) ''name'' = Inr False
   \<and> hasKey (JObj [(''number'', JStr ''7''), (''name'', JNum ''5'')]) ''code'' = Inr False"
proof -
  let ?x = "JObj [(''number'', JStr ''7''), (''name'', JNum ''5'')]"
  have k: "currentRequiredKeys ?x = Inr videoRequiredKeys"
    by (simp add: currentRequiredKeys_def own_property_def)
  have v: "validate_item 0 ?x
           = Inr (Some \<lparr>invalid_item.channel = String ''7'', missing = [''name'']\<rparr>)"
    by (simp add: validate_item_def k check_item_eq callable_hasOwnProperty_def
          is_string_field_def own_property_def number_field_def videoRequiredKeys_def)
  from hasKey_iff_own_string_property [OF v k] v k show ?thesis
    by (simp add: is_string_field_def own_property_def videoRequiredKeys_def)
qed

text \<open>
  Claim C6. The claim has a field counted as present, for every record, exactly when the
  record has the key as an own property with a string under it. The test calls
  \<^verbatim>\<open>item.hasOwnProperty(key)\<close> on the record itself. In the record with the six string
  fields of the video variant and a further member named \<^verbatim>\<open>hasOwnProperty\<close>, the key
  \<^verbatim>\<open>number\<close> is an own property with a string under it, but the member hides the built-in
  method, the test throws instead of counting the field as present, and the validator
  reports nothing.
\<close>

theorem hasKey_throws_for_member_named_hasOwnProperty:
  "is_string_field (JObj [(''number'', JStr ''1''), (''name'', JStr ''A''),
                          (''code'', JStr ''c1''), (''type'', JStr ''video''),
                          (''category'', JStr ''x''), (''playlist'', JStr ''p''),
                          (''hasOwnProperty'', JStr ''h'')]) ''number''
   \<and> currentRequiredKeys (JObj [(''number'', JStr ''1''), (''name'', JStr ''A''),
                                 (''code'', JStr ''c1''), (''type'', JStr ''video''),
                                 (''category'', JStr ''x''), (''playlist'', JStr ''p''),
                                 (''hasOwnProperty'', JStr ''h'')])
     = Inr videoRequiredKeys
   \<and> hasKey (JObj [(''number'', JStr ''1''), (''name'', JStr ''A''),
                    (''code'', JStr ''c1''), (''type'', JStr ''video''),
                    (''category'', JStr ''x''), (''playlist'', JStr ''p''),
                    (''hasOwnProperty'', JStr ''h'')]) ''number''
     = Inl TypeError
   \<and> validate_item 0 (JObj [(''number'', JStr ''1''), (''name'', JStr ''A''),
                            (''code'', JStr ''c1''), (''type'', JStr ''video''),
                            (''category'', JStr ''x''), (''playlist'', JStr ''p''),
                            (''hasOwnProperty'', JStr ''h'')])
     = Inl TypeError"
  by (simp add: validate_item_def currentRequiredKeys_def own_property_def check_item_eq
        hasKey_eq callable_hasOwnProperty_def is_string_field_def videoRequiredKeys_def)

section \<open>Properties of the uniqueness validator\<close>

lemma second_occurrences_snoc:
  "second_occurrences (xs @ [x])
   = second_occurrences xs @ (if count_list xs x = 1 then [x] else [])"
proof -
  let ?n = "length xs"
  let ?P = "\<lambda>j. count_list (take j xs) (xs ! j) = Suc 0"
  have f: "filter (\<lambda>j. count_list (take j xs) ((xs @ [x]) ! j)
                        + count_list (take (j - length xs) [x]) ((xs @ [x]) ! j) = Suc 0)
             [0..<?n]
           = filter ?P [0..<?n]"
    by (rule filter_cong) (auto simp add: nth_append)
  have m: "map ((!) (xs @ [x])) (filter ?P [0..<?n]) = map ((!) xs) (filter ?P [0..<?n])"
    by (rule map_cong) (auto simp add: nth_append)
  show ?thesis
    by (simp add: second_occurrences_def f m)
qed

lemma second_occurrences_Nil: "second_occurrences [] = []"
  by (simp add: second_occurrences_def)

lemma set_second_occurrences:
  "set (second_occurrences xs) = {x. 2 \<le> count_list xs x}"
proof (induction xs rule: rev_induct)
  case Nil
  show ?case by (simp add: second_occurrences_Nil)
next
  case (snoc x xs)
  show ?case
    by (auto simp add: second_occurrences_snoc snoc)
qed

lemma distinct_second_occurrences: "distinct (second_occurrences xs)"
proof (induction xs rule: rev_induct)
  case Nil
  show ?case by (simp add: second_occurrences_Nil)
next
  case (snoc x xs)
  show ?case
    by (auto simp add: second_occurrences_snoc snoc set_second_occurrences)
qed

lemma find_channel_None:
  "(find (\<lambda>d. duplicate.channel d = n) dups = None) = (n \<notin> set (map duplicate.channel dups))"
  by (induction dups) auto

lemma map_channel_increment_count:
  "map duplicate.channel (increment_count n dups) = map duplicate.channel dups"
  by (induction dups) auto

lemma increment_count_counts:
  assumes "distinct (map duplicate.channel dups)"
    and "d \<in> set (increment_count n dups)"
  shows "\<exists>d' \<in> set dups. duplicate.channel d' = duplicate.channel d
           \<and> count d = (if duplicate.channel d = n then count d' + 1 else count d')"
  using assms
proof (induction dups)
  case Nil
  then show ?case by simp
next
  case (Cons a dups)
  show ?case
  proof (cases "duplicate.channel a = n")
    case True
    with Cons.prems show ?thesis by (auto simp add: image_iff)
  next
    case False
    with Cons.prems Cons.IH show ?thesis by auto
  qed
qed

lemma duplicates_invariant_step:
  assumes "duplicates_invariant seen dups"
  shows "duplicates_invariant (seen @ [n])
           (if n \<in> set seen then
              (case find (\<lambda>d. duplicate.channel d = n) dups of
                 Some e \<Rightarrow> increment_count n dups
               | None \<Rightarrow> dups @ [\<lparr>duplicate.channel = n, count = 2\<rparr>])
            else dups)"
proof -
  from assms have ch: "map duplicate.channel dups = second_occurrences seen"
    and cn: "\<forall>d \<in> set dups. count d = count_list seen (duplicate.channel d)"
    by (simp_all add: duplicates_invariant_def)
  have dist: "distinct (map duplicate.channel dups)"
    by (simp add: ch distinct_second_occurrences)
  have mem: "duplicate.channel ` set dups = {x. 2 \<le> count_list seen x}"
    using arg_cong [OF ch, of set] by (simp add: set_second_occurrences)
  show ?thesis
  proof (cases "n \<in> set seen")
    case False
    then have z: "count_list seen n = 0" by (simp add: count_list_0_iff)
    have "\<forall>d \<in> set dups. duplicate.channel d \<noteq> n"
    proof
      fix d assume "d \<in> set dups"
      then have "2 \<le> count_list seen (duplicate.channel d)" using mem by blast
      with z show "duplicate.channel d \<noteq> n" by auto
    qed
    with False z ch cn show ?thesis
      by (auto simp add: duplicates_invariant_def second_occurrences_snoc)
  next
    case True
    then have pos: "1 \<le> count_list seen n"
      using count_list_0_iff [of seen n] by (cases "count_list seen n") auto
    show ?thesis
    proof (cases "find (\<lambda>d. duplicate.channel d = n) dups")
      case None
      then have nin: "n \<notin> duplicate.channel ` set dups"
        using find_channel_None [of n dups] by simp
      then have "\<not> 2 \<le> count_list seen n" using mem by blast
      with pos have one: "count_list seen n = 1" by simp
      have "\<forall>d \<in> set dups. duplicate.channel d \<noteq> n"
        using nin by auto
      with True None one ch cn show ?thesis
        by (auto simp add: duplicates_invariant_def second_occurrences_snoc)
    next
      case (Some e)
      then have "n \<in> duplicate.channel ` set dups"
        using find_channel_None [of n dups] by simp
      then have two: "2 \<le> count_list seen n" using mem by blast
      have "\<forall>d \<in> set (increment_count n dups).
              count d = count_list (seen @ [n]) (duplicate.channel d)"
      proof
        fix d assume "d \<in> set (increment_count n dups)"
        from increment_count_counts [OF dist this] cn
        show "count d = count_list (seen @ [n]) (duplicate.channel d)" by auto
      qed
      with True Some two ch show ?thesis
        by (simp add: duplicates_invariant_def second_occurrences_snoc
              map_channel_increment_count)
    qed
  qed
qed

lemma item_number_eq:
  "item_number i item
   = (if item = JNull then Inl TypeError else Inr (value_at i (number_field item)))"
  by (cases item) (simp_all add: item_number_def number_field_def)

lemma for_of_item_invariant:
  assumes "for_of_item ps (set seen) dups = Inr res"
    and "duplicates_invariant seen dups"
  shows "JNull \<notin> snd ` set ps
         \<and> duplicates_invariant
             (seen @ map (\<lambda>(i, item). value_at i (number_field item)) ps) res"
  using assms
proof (induction ps arbitrary: seen dups)
  case Nil
  then show ?case by simp
next
  case (Cons p ps)
  obtain i item where p: "p = (i, item)" by (cases p)
  let ?n = "value_at i (number_field item)"
  let ?dups = "if ?n \<in> set seen then
              (case find (\<lambda>d. duplicate.channel d = ?n) dups of
                 Some e \<Rightarrow> increment_count ?n dups
               | None \<Rightarrow> dups @ [\<lparr>duplicate.channel = ?n, count = 2\<rparr>])
            else dups"
  from Cons.prems(1) p have nn: "item \<noteq> JNull"
    by (auto simp add: item_number_eq split: if_splits)
  have s: "set (seen @ [?n]) = (if ?n \<in> set seen then set seen else insert ?n (set seen))"
    by auto
  from Cons.prems(1) p nn have "for_of_item ps (set (seen @ [?n])) ?dups = Inr res"
    by (simp only: s) (auto simp add: item_number_eq split: option.splits)
  from Cons.IH [OF this duplicates_invariant_step [OF Cons.prems(2)]] nn p
  show ?case by simp
qed

lemma checkForDuplicateNumber_invariant:
  assumes "checkForDuplicateNumber data = Inr check"
  shows "duplicates_invariant (numbers data) (duplicates check)"
proof -
  from assms obtain dups where f: "for_of_item (enumerate 0 data) (set []) [] = Inr dups"
    and d: "duplicates check = dups"
    by (auto simp add: checkForDuplicateNumber_def split: sum.splits)
  have "duplicates_invariant [] []"
    by (simp add: duplicates_invariant_def second_occurrences_Nil)
  from for_of_item_invariant [OF f this] d show ?thesis
    by (simp add: numbers_def)
qed

text \<open>
  Claim C4. Whenever the uniqueness validator returns a report, the channels of its entries
  are the values of \<^verbatim>\<open>number\<close> in the order in which each is met for the second time; no
  channel is listed twice; a value has an entry exactly when it occurs at least twice in
  the collection, so a value that occurs once has none; and the count of an entry is the
  number of occurrences of its channel.
\<close>

theorem checkForDuplicateNumber_report:
  assumes "checkForDuplicateNumber data = Inr check"
  shows "map duplicate.channel (duplicates check) = second_occurrences (numbers data)
         \<and> distinct (map duplicate.channel (duplicates check))
         \<and> (\<forall>x. (x \<in> set (map duplicate.channel (duplicates check)))
                  = (2 \<le> count_list (numbers data) x))
         \<and> (\<forall>d \<in> set (duplicates check).
               count d = count_list (numbers data) (duplicate.channel d))"
proof -
  from checkForDuplicateNumber_invariant [OF assms]
  have ch: "map duplicate.channel (duplicates check) = second_occurrences (numbers data)"
    and cn: "\<forall>d \<in> set (duplicates check).
               count d = count_list (numbers data) (duplicate.channel d)"
    by (simp_all add: duplicates_invariant_def)
  have "distinct (map duplicate.channel (duplicates check))"
    by (simp add: ch distinct_second_occurrences)
  moreover have "\<forall>x. (x \<in> set (map duplicate.channel (duplicates check)))
                   = (2 \<le> count_list (numbers data) x)"
    by (simp add: ch set_second_occurrences)
  ultimately show ?thesis using ch cn by simp
qed

theorem checkForDuplicateNumber_report_witness:
  "checkForDuplicateNumber
     [JObj [(''number'', JStr ''1'')], JObj [(''number'', JStr ''2'')],
      JObj [(''number'', JStr ''3'')], JObj [(''number'', JStr ''2'')],
      JObj [(''number'', JStr ''1'')], JObj [(''number'', JStr ''1'')]]
   = Inr \<lparr>hasDuplicate = True,
          duplicates = [\<lparr>duplicate.channel = String ''2'', count = 2\<rparr>,
                        \<lparr>duplicate.channel = String ''1'', count = 3\<rparr>]\<rparr>
   \<and> second_occurrences
        (numbers [JObj [(''number'', JStr ''1'')], JObj [(''number'', JStr ''2'')],
                  JObj [(''number'', JStr ''3'')], JObj [(''number'', JStr ''2'')],
                  JObj [(''number'', JStr ''1'')], JObj [(''number'', JStr ''1'')]])
      = [String ''2'', String ''1'']
   \<and> count_list
        (numbers [JObj [(''number'', JStr ''1'')], JObj [(''number'', JStr ''2'')],
                  JObj [(''number'', JStr ''3'')], JObj [(''number'', JStr ''2'')],
                  JObj [(''number'', JStr ''1'')], JObj [(''number'', JStr ''1'')]])
        (String ''1'') = 3"
proof -
  let ?data = "[JObj [(''number'', JStr ''1'')], JObj [(''number'', JStr ''2'')],
                JObj [(''number'', JStr ''3'')], JObj [(''number'', JStr ''2'')],
                JObj [(''number'', JStr ''1'')], JObj [(''number'', JStr ''1'')]]"
  have h: "checkForDuplicateNumber ?data
           = Inr \<lparr>hasDuplicate = True,
                  duplicates = [\<lparr>duplicate.channel = String ''2'', count = 2\<rparr>,
                                \<lparr>duplicate.channel = String ''1'', count = 3\<rparr>]\<rparr>"
    by code_simp
  from checkForDuplicateNumber_report [OF h] h show ?thesis by simp
qed

text \<open>The uniqueness validator returns a report for every collection without \<^verbatim>\<open>null\<close>.\<close>

lemma for_of_item_returns:
  assumes "JNull \<notin> snd ` set ps"
  shows "\<exists>res. for_of_item ps existing dups = Inr res"
  using assms
proof (induction ps arbitrary: existing dups)
  case Nil
  show ?case by simp
next
  case (Cons p ps)
  obtain i item where p: "p = (i, item)" by (cases p)
  with Cons.prems have "item \<noteq> JNull" and "JNull \<notin> snd ` set ps" by auto
  with Cons.IH p show ?case
    by (auto simp add: item_number_eq split: option.splits)
qed

lemma checkForDuplicateNumber_returns:
  assumes "JNull \<notin> set data"
  shows "\<exists>check. checkForDuplicateNumber data = Inr check"
proof -
  have "snd ` set (enumerate 0 data) = set (map snd (enumerate 0 data))"
    by (simp only: set_map)
  then have "snd ` set (enumerate 0 data) = set data"
    by (simp only: map_snd_enumerate)
  with assms for_of_item_returns [of "enumerate 0 data" "{}" "[]"]
  show ?thesis by (auto simp add: checkForDuplicateNumber_def)
qed

section \<open>Properties of the loader\<close>

lemma concat_value_eq: "concat_value mergedData v = mergedData @ file_records (Some v)"
  by (cases v) (simp_all add: file_records_def)

lemma forEach_file_eq:
  "forEach_file dir mergedData log = (mergedData @ merged_records dir, log @ parse_errors dir)"
proof (induction dir arbitrary: mergedData log)
  case Nil
  show ?case by (simp add: merged_records_def parse_errors_def)
next
  case (Cons entry dir)
  obtain name parsed where e: "entry = (name, parsed)" by (cases entry)
  show ?case
  proof (cases parsed)
    case None
    with e Cons show ?thesis
      by (simp add: merged_records_def parse_errors_def file_records_def)
  next
    case (Some v)
    with e Cons show ?thesis
      by (simp add: merged_records_def parse_errors_def concat_value_eq)
  qed
qed

lemma mergeData_eq:
  "mergeData fs =
     (case lists_dir fs of
        None \<Rightarrow> (None, [Console_error ''Error reading directory:''])
      | Some dir \<Rightarrow> (Some (merged_records dir), parse_errors dir))"
  by (simp add: mergeData_def forEach_file_eq split: option.splits)

lemma parse_errors_only_errors:
  "e \<in> set (parse_errors dir) \<Longrightarrow> \<exists>s. e = Console_error s"
  by (auto simp add: parse_errors_def)

lemma mergeData_log:
  assumes "mergeData fs = (r, log)" and "e \<in> set log"
  shows "\<exists>s. e = Console_error s"
  using assms
  by (auto simp add: mergeData_eq split: option.splits dest: parse_errors_only_errors)

lemma merged_records_append:
  "merged_records (xs @ ys) = merged_records xs @ merged_records ys"
  by (simp add: merged_records_def)

lemma merged_records_skip:
  "merged_records ((file, None) # dir) = merged_records dir"
  by (simp add: merged_records_def file_records_def)

lemma file_records_subset:
  assumes "(file, parsed) \<in> set dir"
  shows "set (file_records parsed) \<subseteq> set (merged_records dir)"
  using assms by (auto simp add: merged_records_def)

lemma main_calls_validateItemFormat:
  assumes "lists_dir fs = Some dir"
  shows "Called ''validateItemFormat'' \<in> set (snd (main stringify fs))"
  using assms
  by (simp add: main_def mergeData_eq Let_def split: sum.splits)

text \<open>
  Claim C7. When a file of the directory cannot be parsed, the promise of the loader still
  resolves: the merged collection is made of the records of the files before it and of
  the files after it, exactly as if the file were not in the directory, so the records of
  every other file are in it; the failure is written to the console, and the run goes on
  to the shape validator.
\<close>

theorem mergeData_skips_unparsed_file:
  assumes "lists_dir fs = Some (before @ (file, None) # after)"
  shows "fst (mergeData fs) = Some (merged_records before @ merged_records after)
         \<and> fst (mergeData fs) = fst (mergeData (fs\<lparr>lists_dir := Some (before @ after)\<rparr>))
         \<and> (\<forall>(other, parsed) \<in> set (before @ after).
               set (file_records parsed)
               \<subseteq> set (merged_records before @ merged_records after))
         \<and> Console_error (''Error parsing file '' @ file @ '':'') \<in> set (snd (mergeData fs))
         \<and> Called ''validateItemFormat'' \<in> set (snd (main stringify fs))"
proof -
  have m: "fst (mergeData fs) = Some (merged_records before @ merged_records after)"
    using assms by (simp add: mergeData_eq merged_records_append merged_records_skip)
  have s: "fst (mergeData fs) = fst (mergeData (fs\<lparr>lists_dir := Some (before @ after)\<rparr>))"
    using assms by (simp add: mergeData_eq merged_records_append merged_records_skip)
  have r: "\<forall>(other, parsed) \<in> set (before @ after).
             set (file_records parsed)
             \<subseteq> set (merged_records before @ merged_records after)"
  proof -
    have "\<And>other parsed. (other, parsed) \<in> set (before @ after)
            \<Longrightarrow> set (file_records parsed) \<subseteq> set (merged_records (before @ after))"
      by (rule file_records_subset)
    then show ?thesis by (auto simp add: merged_records_append)
  qed
  have e: "Console_error (''Error parsing file '' @ file @ '':'') \<in> set (snd (mergeData fs))"
    using assms by (simp add: mergeData_eq parse_errors_def)
  from m s r e main_calls_validateItemFormat [OF assms] show ?thesis by blast
qed

theorem mergeData_skips_unparsed_file_witness:
  "fst (mergeData \<lparr>lists_dir = Some ([(''a.json'', Some (JArr [JStr ''x'']))]
                                      @ (''b.json'', None)
                                      # [(''c.json'', Some (JArr [JStr ''y'', JStr ''z'']))]),
                    list_json = None, writable = True\<rparr>)
   = Some [JStr ''x'', JStr ''y'', JStr ''z'']
   \<and> Console_error ''Error parsing file b.json:''
     \<in> set (snd (mergeData \<lparr>lists_dir = Some ([(''a.json'', Some (JArr [JStr ''x'']))]
                                      @ (''b.json'', None)
                                      # [(''c.json'', Some (JArr [JStr ''y'', JStr ''z'']))]),
                    list_json = None, writable = True\<rparr>))"
proof -
  let ?fs = "\<lparr>lists_dir = Some ([(''a.json'', Some (JArr [JStr ''x'']))]
                                 @ (''b.json'', None)
                                 # [(''c.json'', Some (JArr [JStr ''y'', JStr ''z'']))]),
              list_json = None, writable = True\<rparr>"
  have h: "lists_dir ?fs = Some ([(''a.json'', Some (JArr [JStr ''x'']))]
                                 @ (''b.json'', None)
                                 # [(''c.json'', Some (JArr [JStr ''y'', JStr ''z'']))])"
    by simp
  from mergeData_skips_unparsed_file [OF h] show ?thesis
    by (simp add: merged_records_def file_records_def)
qed

section \<open>Properties of the orchestrator\<close>

lemma validateItemFormat_isValid:
  assumes "validateItemFormat data = Inr v"
  shows "isValid v = (invalidItems v = [])"
  using assms by (auto simp add: validateItemFormat_def split: sum.splits)

lemma checkForDuplicateNumber_hasDuplicate:
  assumes "checkForDuplicateNumber data = Inr c"
  shows "hasDuplicate c = (duplicates c \<noteq> [])"
  using assms by (auto simp add: checkForDuplicateNumber_def split: sum.splits)

lemma parse_errors_no_write: "WriteFileSync p d \<notin> set (parse_errors dir)"
  by (auto simp add: parse_errors_def)

lemma parse_errors_no_call: "Called f \<notin> set (parse_errors dir)"
  by (auto simp add: parse_errors_def)

text \<open>The run, by the verdicts of the two validators.\<close>

lemma main_invalid:
  assumes "lists_dir fs = Some dir"
    and "validateItemFormat (merged_records dir) = Inr v" and "invalidItems v \<noteq> []"
  shows "main stringify fs
         = (fs, parse_errors dir @ [Called ''validateItemFormat'',
                                    Console_error ''Invalid items found:'',
                                    Console_table_invalidItems (invalidItems v)])"
  using assms validateItemFormat_isValid [OF assms(2)]
  by (simp add: main_def mergeData_eq)

lemma main_duplicate:
  assumes "lists_dir fs = Some dir"
    and "validateItemFormat (merged_records dir) = Inr v" and "invalidItems v = []"
    and "checkForDuplicateNumber (merged_records dir) = Inr c" and "duplicates c \<noteq> []"
  shows "main stringify fs
         = (fs, parse_errors dir @ [Called ''validateItemFormat'',
                                    Called ''checkForDuplicateNumber'',
                                    Console_error ''Duplicates found:'',
                                    Console_table_duplicates (duplicates c)])"
  using assms validateItemFormat_isValid [OF assms(2)]
    checkForDuplicateNumber_hasDuplicate [OF assms(4)]
  by (simp add: main_def mergeData_eq)

lemma main_success:
  assumes "lists_dir fs = Some dir"
    and "validateItemFormat (merged_records dir) = Inr v" and "invalidItems v = []"
    and "checkForDuplicateNumber (merged_records dir) = Inr c" and "duplicates c = []"
    and "writable fs"
  shows "main stringify fs
         = (fs\<lparr>list_json := Some (stringify (JArr (merged_records dir)) 2)\<rparr>,
            parse_errors dir
            @ [Called ''validateItemFormat'',
               Called ''checkForDuplicateNumber'',
               WriteFileSync savePath (stringify (JArr (merged_records dir)) 2),
               Console_log (''Success: Total of ''
                            @ string_of_nat (length (merged_records dir))
                            @ '' entries written to list.json'')])"
  using assms validateItemFormat_isValid [OF assms(2)]
    checkForDuplicateNumber_hasDuplicate [OF assms(4)]
  by (simp add: main_def mergeData_eq Let_def)

lemma main_written:
  assumes "WriteFileSync p d \<in> set (snd (main stringify fs))
           \<or> list_json (fst (main stringify fs)) \<noteq> list_json fs"
  shows "\<exists>dir v c. lists_dir fs = Some dir
           \<and> validateItemFormat (merged_records dir) = Inr v \<and> invalidItems v = []
           \<and> checkForDuplicateNumber (merged_records dir) = Inr c \<and> duplicates c = []
           \<and> writable fs"
proof (cases "lists_dir fs")
  case None
  with assms show ?thesis by (simp add: main_def mergeData_eq)
next
  case (Some dir)
  show ?thesis
  proof (cases "validateItemFormat (merged_records dir)")
    case (Inl e)
    with Some assms show ?thesis
      by (simp add: main_def mergeData_eq parse_errors_no_write)
  next
    case (Inr v)
    note v = this
    show ?thesis
    proof (cases "invalidItems v = []")
      case False
      with assms main_invalid [OF Some v False, of stringify] show ?thesis
        by (simp add: parse_errors_no_write)
    next
      case True
      note valid = this
      show ?thesis
      proof (cases "checkForDuplicateNumber (merged_records dir)")
        case (Inl e)
        with Some v valid assms validateItemFormat_isValid [OF v] show ?thesis
          by (simp add: main_def mergeData_eq parse_errors_no_write)
      next
        case (Inr c)
        note c = this
        show ?thesis
        proof (cases "duplicates c = []")
          case False
          with assms main_duplicate [OF Some v valid c False, of stringify] show ?thesis
            by (simp add: parse_errors_no_write)
        next
          case True
          show ?thesis
          proof (cases "writable fs")
            case True
            with Some v valid c \<open>duplicates c = []\<close> show ?thesis by simp
          next
            case False
            with Some v valid c True assms validateItemFormat_isValid [OF v]
              checkForDuplicateNumber_hasDuplicate [OF c]
            show ?thesis
              by (simp add: main_def mergeData_eq Let_def parse_errors_no_write)
          qed
        qed
      qed
    qed
  qed
qed

lemma mergeData_Some:
  assumes "mergeData fs = (Some mergedData, log)"
  shows "\<exists>dir. lists_dir fs = Some dir \<and> mergedData = merged_records dir
               \<and> log = parse_errors dir"
  using assms by (auto simp add: mergeData_eq split: option.splits)

lemma mergeData_listed:
  assumes "lists_dir fs = Some dir"
  shows "mergeData fs = (Some (merged_records dir), parse_errors dir)"
  using assms by (simp add: mergeData_eq)

text \<open>
  Claim C2. When the shape validator reports an invalid record, the run leaves the files as
  they are, writes nothing and does not call the uniqueness validator. When the shape
  validator reports none and the uniqueness validator reports a duplicate, the run leaves
  the files as they are and writes nothing. The output file is written, or changed at all,
  only in a run in which the shape validator reports no invalid record and the uniqueness
  validator no duplicate.
\<close>

theorem main_writes_only_after_both_checks:
  "(\<forall>mergedData log v. mergeData fs = (Some mergedData, log)
        \<and> validateItemFormat mergedData = Inr v \<and> invalidItems v \<noteq> []
      \<longrightarrow> fst (main stringify fs) = fs
          \<and> (\<forall>p d. WriteFileSync p d \<notin> set (snd (main stringify fs)))
          \<and> Called ''checkForDuplicateNumber'' \<notin> set (snd (main stringify fs)))
   \<and> (\<forall>mergedData log v c. mergeData fs = (Some mergedData, log)
        \<and> validateItemFormat mergedData = Inr v \<and> invalidItems v = []
        \<and> checkForDuplicateNumber mergedData = Inr c \<and> duplicates c \<noteq> []
      \<longrightarrow> fst (main stringify fs) = fs
          \<and> (\<forall>p d. WriteFileSync p d \<notin> set (snd (main stringify fs))))
   \<and> ((\<exists>p d. WriteFileSync p d \<in> set (snd (main stringify fs)))
        \<or> list_json (fst (main stringify fs)) \<noteq> list_json fs
      \<longrightarrow> (\<exists>mergedData log v c. mergeData fs = (Some mergedData, log)
             \<and> validateItemFormat mergedData = Inr v \<and> invalidItems v = []
             \<and> checkForDuplicateNumber mergedData = Inr c \<and> duplicates c = []))"
proof (intro conjI allI impI)
  fix mergedData log v
  assume a: "mergeData fs = (Some mergedData, log)
        \<and> validateItemFormat mergedData = Inr v \<and> invalidItems v \<noteq> []"
  with mergeData_Some obtain dir where d: "lists_dir fs = Some dir"
    and md: "mergedData = merged_records dir" by blast
  from a md have "validateItemFormat (merged_records dir) = Inr v" and "invalidItems v \<noteq> []"
    by simp_all
  from main_invalid [OF d this]
  have m: "main stringify fs
         = (fs, parse_errors dir @ [Called ''validateItemFormat'',
                                    Console_error ''Invalid items found:'',
                                    Console_table_invalidItems (invalidItems v)])" .
  show "fst (main stringify fs) = fs" by (simp add: m)
  show "\<And>p d. WriteFileSync p d \<notin> set (snd (main stringify fs))"
    by (simp add: m parse_errors_no_write)
  show "Called ''checkForDuplicateNumber'' \<notin> set (snd (main stringify fs))"
    by (simp add: m parse_errors_no_call)
next
  fix mergedData log v c
  assume a: "mergeData fs = (Some mergedData, log)
        \<and> validateItemFormat mergedData = Inr v \<and> invalidItems v = []
        \<and> checkForDuplicateNumber mergedData = Inr c \<and> duplicates c \<noteq> []"
  with mergeData_Some obtain dir where d: "lists_dir fs = Some dir"
    and md: "mergedData = merged_records dir" by blast
  from a md have "validateItemFormat (merged_records dir) = Inr v" and "invalidItems v = []"
    and "checkForDuplicateNumber (merged_records dir) = Inr c" and "duplicates c \<noteq> []"
    by simp_all
  from main_duplicate [OF d this]
  have m: "main stringify fs
         = (fs, parse_errors dir @ [Called ''validateItemFormat'',
                                    Called ''checkForDuplicateNumber'',
                                    Console_error ''Duplicates found:'',
                                    Console_table_duplicates (duplicates c)])" .
  show "fst (main stringify fs) = fs" by (simp add: m)
  show "\<And>p d. WriteFileSync p d \<notin> set (snd (main stringify fs))"
    by (simp add: m parse_errors_no_write)
next
  assume "(\<exists>p d. WriteFileSync p d \<in> set (snd (main stringify fs)))
          \<or> list_json (fst (main stringify fs)) \<noteq> list_json fs"
  then obtain p d where "WriteFileSync p d \<in> set (snd (main stringify fs))
           \<or> list_json (fst (main stringify fs)) \<noteq> list_json fs"
    by blast
  from main_written [OF this] obtain dir v c where d: "lists_dir fs = Some dir"
    and r: "validateItemFormat (merged_records dir) = Inr v" "invalidItems v = []"
       "checkForDuplicateNumber (merged_records dir) = Inr c" "duplicates c = []"
    by blast
  from mergeData_listed [OF d] r
  show "\<exists>mergedData log v c. mergeData fs = (Some mergedData, log)
             \<and> validateItemFormat mergedData = Inr v \<and> invalidItems v = []
             \<and> checkForDuplicateNumber mergedData = Inr c \<and> duplicates c = []"
    by blast
qed

theorem main_writes_only_after_both_checks_witness:
  "fst (main (\<lambda>v n. ''[]'')
          \<lparr>lists_dir = Some [(''a.json'', Some (JArr [JObj [(''number'', JStr ''1'')]]))],
           list_json = None, writable = True\<rparr>)
   = \<lparr>lists_dir = Some [(''a.json'', Some (JArr [JObj [(''number'', JStr ''1'')]]))],
      list_json = None, writable = True\<rparr>
   \<and> Called ''checkForDuplicateNumber''
     \<notin> set (snd (main (\<lambda>v n. ''[]'')
          \<lparr>lists_dir = Some [(''a.json'', Some (JArr [JObj [(''number'', JStr ''1'')]]))],
           list_json = None, writable = True\<rparr>))
   \<and> fst (main (\<lambda>v n. ''[]'')
          \<lparr>lists_dir = Some
             [(''a.json'', Some (JArr [JObj [(''number'', JStr ''5''), (''name'', JStr ''A''),
                                             (''code'', JStr ''c''), (''type'', JStr ''audio''),
                                             (''audio'', JStr ''u'')],
                                       JObj [(''number'', JStr ''5''), (''name'', JStr ''A''),
                                             (''code'', JStr ''c''), (''type'', JStr ''audio''),
                                             (''audio'', JStr ''u'')]]))],
           list_json = Some ''old'', writable = True\<rparr>)
     = \<lparr>lists_dir = Some
          [(''a.json'', Some (JArr [JObj [(''number'', JStr ''5''), (''name'', JStr ''A''),
                                          (''code'', JStr ''c''), (''type'', JStr ''audio''),
                                          (''audio'', JStr ''u'')],
                                    JObj [(''number'', JStr ''5''), (''name'', JStr ''A''),
                                          (''code'', JStr ''c''), (''type'', JStr ''audio''),
                                          (''audio'', JStr ''u'')]]))],
        list_json = Some ''old'', writable = True\<rparr>
   \<and> validateItemFormat [] = Inr \<lparr>isValid = True, invalidItems = []\<rparr>"
proof -
  let ?i = "JObj [(''number'', JStr ''1'')]"
  let ?fs = "\<lparr>lists_dir = Some [(''a.json'', Some (JArr [?i]))],
              list_json = None, writable = True\<rparr>"
  let ?v = "\<lparr>isValid = False,
             invalidItems = [\<lparr>invalid_item.channel = String ''1'', missing = [''name'']\<rparr>]\<rparr>"
  have m: "mergeData ?fs = (Some [?i], [])"
    by (simp add: mergeData_eq merged_records_def file_records_def parse_errors_def)
  have v: "validateItemFormat [?i] = Inr ?v" by code_simp
  have n: "invalidItems ?v \<noteq> []" by simp
  from main_writes_only_after_both_checks [of ?fs "\<lambda>v n. ''[]''"] m v n
  have first: "fst (main (\<lambda>v n. ''[]'') ?fs) = ?fs
               \<and> Called ''checkForDuplicateNumber'' \<notin> set (snd (main (\<lambda>v n. ''[]'') ?fs))"
    by blast
  let ?r = "JObj [(''number'', JStr ''5''), (''name'', JStr ''A''),
                  (''code'', JStr ''c''), (''type'', JStr ''audio''), (''audio'', JStr ''u'')]"
  let ?fs2 = "\<lparr>lists_dir = Some [(''a.json'', Some (JArr [?r, ?r]))],
               list_json = Some ''old'', writable = True\<rparr>"
  let ?c = "\<lparr>hasDuplicate = True,
             duplicates = [\<lparr>duplicate.channel = String ''5'', count = 2\<rparr>]\<rparr>"
  have m2: "mergeData ?fs2 = (Some [?r, ?r], [])"
    by (simp add: mergeData_eq merged_records_def file_records_def parse_errors_def)
  have v2: "validateItemFormat [?r, ?r] = Inr \<lparr>isValid = True, invalidItems = []\<rparr>"
    by code_simp
  have c2: "checkForDuplicateNumber [?r, ?r] = Inr ?c" by code_simp
  have n2: "invalidItems \<lparr>isValid = True, invalidItems = []\<rparr> = []"
    and n3: "duplicates ?c \<noteq> []" by simp_all
  from main_writes_only_after_both_checks [of ?fs2 "\<lambda>v n. ''[]''"] m2 v2 c2 n2 n3
  have second: "fst (main (\<lambda>v n. ''[]'') ?fs2) = ?fs2" by blast
  let ?fs3 = "\<lparr>lists_dir = Some [(''a.json'', Some (JArr []))],
               list_json = None, writable = True\<rparr>"
  have m3: "mergeData ?fs3 = (Some [], [])"
    by (simp add: mergeData_eq merged_records_def file_records_def parse_errors_def)
  have w: "WriteFileSync savePath ''[]'' \<in> set (snd (main (\<lambda>v n. ''[]'') ?fs3))"
    by (simp add: main_def m3 validateItemFormat_def checkForDuplicateNumber_def
          enumerate_eq_zip Let_def)
  with main_writes_only_after_both_checks [of ?fs3 "\<lambda>v n. ''[]''"]
  obtain md lg v3 where "mergeData ?fs3 = (Some md, lg)"
    and "validateItemFormat md = Inr v3" and "invalidItems v3 = []"
    by blast
  with m3 have v3: "validateItemFormat [] = Inr v3" and i3: "invalidItems v3 = []" by simp_all
  from validateItemFormat_isValid [OF v3] i3 have "isValid v3" by simp
  with v3 i3 have third: "validateItemFormat [] = Inr \<lparr>isValid = True, invalidItems = []\<rparr>"
    by (cases v3) simp
  from first second third show ?thesis by blast
qed

section \<open>Records that satisfy their schema\<close>

lemma snd_enumerate_mem:
  assumes "p \<in> set (enumerate n xs)"
  shows "snd p \<in> set xs"
proof -
  from assms have "snd p \<in> set (map snd (enumerate n xs))"
    by (simp only: set_map) (rule imageI)
  then show ?thesis by (simp only: map_snd_enumerate)
qed

lemma is_string_fieldD:
  assumes "is_string_field item key"
  shows "\<exists>kvs s. item = JObj kvs \<and> own_property kvs key = Some (JStr s)"
proof (cases item)
  case (JObj kvs)
  show ?thesis
  proof (cases "own_property kvs key")
    case None
    with JObj assms show ?thesis by (simp add: is_string_field_def)
  next
    case (Some v)
    with JObj assms show ?thesis by (cases v) (simp_all add: is_string_field_def)
  qed
qed (use assms in \<open>simp_all add: is_string_field_def\<close>)

lemma number_field_string:
  assumes "is_string_field item ''number''"
  shows "\<exists>s. number_field item = Some (JStr s)"
  using is_string_fieldD [OF assms] by (auto simp add: number_field_def)

lemma validate_item_schema:
  assumes "validate_item index item = Inr r" and "satisfies_schema item"
  shows "r = None"
proof -
  from assms(1) obtain keys where k: "currentRequiredKeys item = Inr keys"
    by (auto simp add: validate_item_def split: sum.splits)
  from assms(2) have "find (\<lambda>k. \<not> is_string_field item k) (variant_keys item) = None"
    by (simp add: satisfies_schema_def find_None_iff)
  with assms(1) validate_item_variant [OF k, of index] show ?thesis
    by (auto simp add: check_item_eq split: if_splits)
qed

lemma validateItemFormat_schema:
  assumes "validateItemFormat data = Inr v"
    and "\<forall>item \<in> set data. satisfies_schema item"
  shows "invalidItems v = []"
proof -
  from assms(1) obtain invalid where f: "forEach_item (enumerate 0 data) [] = Inr invalid"
    and v: "invalidItems v = invalid"
    by (auto simp add: validateItemFormat_def split: sum.splits)
  have "\<And>p. p \<in> set (enumerate 0 data) \<Longrightarrow>
          (case validate_item (fst p) (snd p) of Inr (Some e) \<Rightarrow> [e] | _ \<Rightarrow> []) = []"
  proof -
    fix p assume p: "p \<in> set (enumerate 0 data)"
    then have "snd p \<in> set data" by (rule snd_enumerate_mem)
    with assms(2) have s: "satisfies_schema (snd p)" by simp
    from forEach_item_eq [OF f] p obtain r where r: "validate_item (fst p) (snd p) = Inr r"
      by blast
    from validate_item_schema [OF r s] r
    show "(case validate_item (fst p) (snd p) of Inr (Some e) \<Rightarrow> [e] | _ \<Rightarrow> []) = []"
      by simp
  qed
  with forEach_item_eq [OF f] v show ?thesis by simp
qed

lemma count_list_distinct:
  assumes "distinct xs"
  shows "count_list xs x \<le> 1"
  using assms
proof (induction xs)
  case Nil
  show ?case by simp
next
  case (Cons a xs)
  then have d: "distinct xs" and n: "a \<notin> set xs" by simp_all
  show ?case
  proof (cases "x = a")
    case True
    with n have "count_list xs x = 0" by (simp add: count_list_0_iff)
    with True show ?thesis by simp
  next
    case False
    with Cons.IH [OF d] show ?thesis by simp
  qed
qed

lemma length_numbers: "length (numbers data) = length data"
  by (simp add: numbers_def)

lemma numbers_nth:
  assumes "i < length data"
  shows "numbers data ! i = value_at i (number_field (data ! i))"
  using assms by (simp add: numbers_def nth_enumerate_eq)

lemma numbers_of_strings:
  assumes "\<forall>item \<in> set data. is_string_field item ''number''"
  shows "numbers data = map (value_at 0) (map number_field data)"
proof (rule nth_equalityI)
  show "length (numbers data) = length (map (value_at 0) (map number_field data))"
    by (simp add: length_numbers)
next
  fix i assume "i < length (numbers data)"
  then have i: "i < length data" by (simp add: length_numbers)
  with assms have "is_string_field (data ! i) ''number''" by simp
  from number_field_string [OF this] obtain s
    where "number_field (data ! i) = Some (JStr s)" by blast
  with i show "numbers data ! i = map (value_at 0) (map number_field data) ! i"
    by (simp add: numbers_nth)
qed

lemma numbers_distinct:
  assumes "\<forall>item \<in> set data. is_string_field item ''number''"
    and "distinct (map number_field data)"
  shows "distinct (numbers data)"
proof -
  have "inj_on (value_at 0) (set (map number_field data))"
  proof (rule inj_onI)
    fix a b
    assume a: "a \<in> set (map number_field data)" and b: "b \<in> set (map number_field data)"
      and e: "value_at 0 a = value_at 0 b"
    from a assms(1) obtain s where "a = Some (JStr s)"
      using number_field_string by fastforce
    moreover from b assms(1) obtain t where "b = Some (JStr t)"
      using number_field_string by fastforce
    ultimately show "a = b" using e by simp
  qed
  with assms(2) have "distinct (map (value_at 0) (map number_field data))"
    by (simp only: distinct_map)
  then show ?thesis by (simp only: numbers_of_strings [OF assms(1)])
qed

lemma checkForDuplicateNumber_distinct:
  assumes "checkForDuplicateNumber data = Inr c" and "distinct (numbers data)"
  shows "duplicates c = []"
proof -
  have "\<And>x. \<not> 2 \<le> count_list (numbers data) x"
  proof -
    fix x
    from count_list_distinct [OF assms(2), of x]
    show "\<not> 2 \<le> count_list (numbers data) x" by simp
  qed
  then have "set (second_occurrences (numbers data)) = {}"
    by (simp add: set_second_occurrences)
  with checkForDuplicateNumber_invariant [OF assms(1)] show ?thesis
    by (simp add: duplicates_invariant_def)
qed

lemma merged_records_arrays:
  assumes "map snd dir = map (\<lambda>xs. Some (JArr xs)) arrays"
  shows "merged_records dir = concat arrays"
proof -
  have "merged_records dir = concat (map file_records (map snd dir))"
    by (simp add: merged_records_def split_def comp_def)
  also have "\<dots> = concat (map (\<lambda>xs. xs) arrays)"
    by (simp only: assms map_map comp_def) (simp add: file_records_def)
  finally show ?thesis by simp
qed

lemma parse_errors_arrays:
  assumes "map snd dir = map (\<lambda>xs. Some (JArr xs)) arrays"
  shows "parse_errors dir = []"
proof -
  have "\<And>entry. entry \<in> set dir \<Longrightarrow> snd entry \<noteq> None"
  proof -
    fix entry assume "entry \<in> set dir"
    then have "snd entry \<in> set (map snd dir)" by simp
    then show "snd entry \<noteq> None" by (auto simp add: assms)
  qed
  then show ?thesis
    by (auto simp add: parse_errors_def filter_empty_conv)
qed

lemma forEach_item_returns:
  assumes "\<forall>p \<in> set ps. \<exists>r. validate_item (fst p) (snd p) = Inr r"
  shows "\<exists>res. forEach_item ps acc = Inr res"
  using assms
proof (induction ps arbitrary: acc)
  case Nil
  show ?case by simp
next
  case (Cons p ps)
  obtain i item where p: "p = (i, item)" by (cases p)
  from Cons.prems p obtain r where r: "validate_item i item = Inr r" by auto
  from Cons.prems have "\<forall>p \<in> set ps. \<exists>r. validate_item (fst p) (snd p) = Inr r" by simp
  from Cons.IH [OF this] p r show ?case by (cases r) simp_all
qed

lemma satisfies_schema_number:
  assumes "satisfies_schema item"
  shows "is_string_field item ''number''"
  using assms
  by (simp add: satisfies_schema_def variant_keys_def audioRequiredKeys_def
        videoRequiredKeys_def split: if_splits)

lemma satisfies_schema_type:
  assumes "satisfies_schema item"
  shows "is_string_field item ''type''"
  using assms
  by (simp add: satisfies_schema_def variant_keys_def audioRequiredKeys_def
        videoRequiredKeys_def split: if_splits)

lemma currentRequiredKeys_string_type:
  assumes "is_string_field item ''type''"
  shows "currentRequiredKeys item = Inr (variant_keys item)"
proof -
  from is_string_fieldD [OF assms] obtain kvs s
    where "item = JObj kvs" and "own_property kvs ''type'' = Some (JStr s)" by blast
  then show ?thesis
    by (simp add: currentRequiredKeys_def variant_keys_def type_is_audio_def)
qed

text \<open>
  The shape validator returns a report, and finds nothing, for records that satisfy their
  schema and leave the built-in \<^verbatim>\<open>hasOwnProperty\<close> reachable.
\<close>

lemma validateItemFormat_accepts:
  assumes "\<forall>item \<in> set data. satisfies_schema item \<and> callable_hasOwnProperty item"
  shows "validateItemFormat data = Inr \<lparr>isValid = True, invalidItems = []\<rparr>"
proof -
  have "\<forall>p \<in> set (enumerate 0 data). \<exists>r. validate_item (fst p) (snd p) = Inr r"
  proof
    fix p assume "p \<in> set (enumerate 0 data)"
    then have "snd p \<in> set data" by (rule snd_enumerate_mem)
    with assms have s: "satisfies_schema (snd p)" and c: "callable_hasOwnProperty (snd p)"
      by simp_all
    from currentRequiredKeys_string_type [OF satisfies_schema_type [OF s]]
    have k: "currentRequiredKeys (snd p) = Inr (variant_keys (snd p))" .
    from currentRequiredKeys_nonempty [OF k] c
    show "\<exists>r. validate_item (fst p) (snd p) = Inr r"
      by (simp add: validate_item_def k check_item_eq split: option.splits)
  qed
  from forEach_item_returns [OF this] obtain invalid
    where f: "forEach_item (enumerate 0 data) [] = Inr invalid" by blast
  then have v: "validateItemFormat data
                = Inr \<lparr>isValid = (length invalid = 0), invalidItems = invalid\<rparr>"
    by (simp add: validateItemFormat_def)
  from validateItemFormat_schema [OF v] assms have "invalid = []" by simp
  with v show ?thesis by simp
qed

lemma main_write_event:
  assumes "WriteFileSync p d \<in> set (snd (main stringify fs))"
  shows "\<exists>dir. lists_dir fs = Some dir
           \<and> main stringify fs
             = (fs\<lparr>list_json := Some (stringify (JArr (merged_records dir)) 2)\<rparr>,
                parse_errors dir
                @ [Called ''validateItemFormat'',
                   Called ''checkForDuplicateNumber'',
                   WriteFileSync savePath (stringify (JArr (merged_records dir)) 2),
                   Console_log (''Success: Total of ''
                                @ string_of_nat (length (merged_records dir))
                                @ '' entries written to list.json'')])"
proof -
  from assms have "WriteFileSync p d \<in> set (snd (main stringify fs))
           \<or> list_json (fst (main stringify fs)) \<noteq> list_json fs" by simp
  from main_written [OF this] obtain dir v c where
    d: "lists_dir fs = Some dir"
    and v: "validateItemFormat (merged_records dir) = Inr v" and vi: "invalidItems v = []"
    and c: "checkForDuplicateNumber (merged_records dir) = Inr c" and ci: "duplicates c = []"
    and w: "writable fs" by blast
  from main_success [OF d v vi c ci w, of stringify] d show ?thesis by simp
qed

text \<open>
  The run on a directory that is listed and all of whose files parse to arrays. Whatever
  it writes, it writes to \<^verbatim>\<open>../list.json\<close>, and it is the text that \<^verbatim>\<open>JSON.stringify\<close>
  gives, with indentation 2, for the concatenation of the arrays in the order of the
  enumeration; the run then ends with the success message, which tells the number of
  records of the concatenation. And the run does write, and does nothing else than call
  the two validators, write and print that message, when every record has all the
  required string fields of its variant, the values under \<^verbatim>\<open>number\<close> are pairwise
  distinct, the output file can be written, and no record hides the built-in
  \<^verbatim>\<open>hasOwnProperty\<close> behind a member of that name.
\<close>

lemma main_writes_concatenation:
  assumes "lists_dir fs = Some dir"
    and "map snd dir = map (\<lambda>xs. Some (JArr xs)) arrays"
  shows "(\<forall>p d. WriteFileSync p d \<in> set (snd (main stringify fs))
            \<longrightarrow> p = savePath \<and> d = stringify (JArr (concat arrays)) 2
                \<and> list_json (fst (main stringify fs)) = Some d
                \<and> last (snd (main stringify fs))
                  = Console_log (''Success: Total of ''
                                 @ string_of_nat (length (concat arrays))
                                 @ '' entries written to list.json''))
         \<and> ((\<forall>item \<in> set (concat arrays).
                 satisfies_schema item \<and> callable_hasOwnProperty item)
              \<and> distinct (map number_field (concat arrays)) \<and> writable fs
            \<longrightarrow> main stringify fs
                = (fs\<lparr>list_json := Some (stringify (JArr (concat arrays)) 2)\<rparr>,
                   [Called ''validateItemFormat'',
                    Called ''checkForDuplicateNumber'',
                    WriteFileSync savePath (stringify (JArr (concat arrays)) 2),
                    Console_log (''Success: Total of ''
                                 @ string_of_nat (length (concat arrays))
                                 @ '' entries written to list.json'')]))"
proof (intro conjI allI impI)
  have m: "merged_records dir = concat arrays"
    by (rule merged_records_arrays [OF assms(2)])
  have pe: "parse_errors dir = []"
    by (rule parse_errors_arrays [OF assms(2)])
  {
    fix p d
    assume "WriteFileSync p d \<in> set (snd (main stringify fs))"
    note w = this
    from main_write_event [OF w] assms(1)
    have e: "main stringify fs
             = (fs\<lparr>list_json := Some (stringify (JArr (concat arrays)) 2)\<rparr>,
                [Called ''validateItemFormat'',
                 Called ''checkForDuplicateNumber'',
                 WriteFileSync savePath (stringify (JArr (concat arrays)) 2),
                 Console_log (''Success: Total of ''
                              @ string_of_nat (length (concat arrays))
                              @ '' entries written to list.json'')])"
      by (auto simp add: m pe)
    from w show "p = savePath" by (simp add: e)
    from w show "d = stringify (JArr (concat arrays)) 2" by (simp add: e)
    then show "list_json (fst (main stringify fs)) = Some d" by (simp add: e)
    show "last (snd (main stringify fs))
          = Console_log (''Success: Total of '' @ string_of_nat (length (concat arrays))
                         @ '' entries written to list.json'')"
      by (simp add: e)
  }
  assume a: "(\<forall>item \<in> set (concat arrays).
                 satisfies_schema item \<and> callable_hasOwnProperty item)
              \<and> distinct (map number_field (concat arrays)) \<and> writable fs"
  then have v: "validateItemFormat (concat arrays) = Inr \<lparr>isValid = True, invalidItems = []\<rparr>"
    using validateItemFormat_accepts by blast
  have num: "\<forall>item \<in> set (concat arrays). is_string_field item ''number''"
    using a satisfies_schema_number by blast
  have "JNull \<notin> set (concat arrays)"
  proof
    assume "JNull \<in> set (concat arrays)"
    with num have "is_string_field JNull ''number''" by blast
    then show False by (simp add: is_string_field_def)
  qed
  from checkForDuplicateNumber_returns [OF this] obtain c
    where c: "checkForDuplicateNumber (concat arrays) = Inr c" by blast
  from a have dist: "distinct (map number_field (concat arrays))" by simp
  have nodup: "duplicates c = []"
    by (rule checkForDuplicateNumber_distinct [OF c numbers_distinct [OF num dist]])
  from a have w: "writable fs" by simp
  from main_success [of fs dir _ c stringify] assms(1) v w c nodup
  show "main stringify fs
        = (fs\<lparr>list_json := Some (stringify (JArr (concat arrays)) 2)\<rparr>,
           [Called ''validateItemFormat'',
            Called ''checkForDuplicateNumber'',
            WriteFileSync savePath (stringify (JArr (concat arrays)) 2),
            Console_log (''Success: Total of '' @ string_of_nat (length (concat arrays))
                         @ '' entries written to list.json'')])"
    by (simp add: m pe)
qed

lemma main_writes_concatenation_example:
  "main (\<lambda>v n. ''text'')
     \<lparr>lists_dir = Some
        [(''a.json'', Some (JArr [JObj [(''number'', JStr ''1''), (''name'', JStr ''A''),
                                        (''code'', JStr ''c1''), (''type'', JStr ''video''),
                                        (''category'', JStr ''x''), (''playlist'', JStr ''p'')]])),
         (''b.json'', Some (JArr [JObj [(''number'', JStr ''2''), (''name'', JStr ''B''),
                                        (''code'', JStr ''c2''), (''type'', JStr ''audio''),
                                        (''audio'', JStr ''u'')]]))],
      list_json = None, writable = True\<rparr>
   = (\<lparr>lists_dir = Some
        [(''a.json'', Some (JArr [JObj [(''number'', JStr ''1''), (''name'', JStr ''A''),
                                        (''code'', JStr ''c1''), (''type'', JStr ''video''),
                                        (''category'', JStr ''x''), (''playlist'', JStr ''p'')]])),
         (''b.json'', Some (JArr [JObj [(''number'', JStr ''2''), (''name'', JStr ''B''),
                                        (''code'', JStr ''c2''), (''type'', JStr ''audio''),
                                        (''audio'', JStr ''u'')]]))],
      list_json = Some ''text'', writable = True\<rparr>,
      [Called ''validateItemFormat'', Called ''checkForDuplicateNumber'',
       WriteFileSync ''../list.json'' ''text'',
       Console_log ''Success: Total of 2 entries written to list.json''])"
proof -
  let ?v = "JObj [(''number'', JStr ''1''), (''name'', JStr ''A''),
                  (''code'', JStr ''c1''), (''type'', JStr ''video''),
                  (''category'', JStr ''x''), (''playlist'', JStr ''p'')]"
  let ?a = "JObj [(''number'', JStr ''2''), (''name'', JStr ''B''),
                  (''code'', JStr ''c2''), (''type'', JStr ''audio''),
                  (''audio'', JStr ''u'')]"
  let ?dir = "[(''a.json'', Some (JArr [?v])), (''b.json'', Some (JArr [?a]))]"
  let ?fs = "\<lparr>lists_dir = Some ?dir, list_json = None, writable = True\<rparr>"
  have 1: "lists_dir ?fs = Some ?dir" by simp
  have 2: "map snd ?dir = map (\<lambda>xs. Some (JArr xs)) [[?v], [?a]]" by simp
  have 3: "\<forall>item \<in> set (concat [[?v], [?a]]).
             satisfies_schema item \<and> callable_hasOwnProperty item"
    by (simp add: satisfies_schema_def variant_keys_def type_is_audio_def own_property_def
          is_string_field_def videoRequiredKeys_def audioRequiredKeys_def
          callable_hasOwnProperty_def)
  have 4: "distinct (map number_field (concat [[?v], [?a]]))"
    by (simp add: number_field_def own_property_def)
  have 6: "writable ?fs" by simp
  have 7: "string_of_nat (Suc (Suc 0)) = ''2''" by code_simp
  from main_writes_concatenation [OF 1 2, of "\<lambda>v n. ''text''"] 3 4 6
  have "main (\<lambda>v n. ''text'') ?fs
        = (?fs\<lparr>list_json := Some ''text''\<rparr>,
           [Called ''validateItemFormat'', Called ''checkForDuplicateNumber'',
            WriteFileSync savePath ''text'',
            Console_log (''Success: Total of '' @ string_of_nat (length (concat [[?v], [?a]]))
                         @ '' entries written to list.json'')])"
    by blast
  then show ?thesis by (simp add: savePath_def 7)
qed

text \<open>
  Claim C3. The claim promises the written concatenation for every directory whose files
  parse and whose records satisfy their schema with distinct values of \<^verbatim>\<open>number\<close>. A
  record with the six string fields of the video variant and a further member named
  \<^verbatim>\<open>hasOwnProperty\<close> is missing no field, and it is the only record here. But the
  member hides the built-in method, \<^verbatim>\<open>item.hasOwnProperty(key)\<close> calls a string, the shape
  validator throws, the orchestrator catches the error, and the run writes nothing.
\<close>

theorem main_writes_nothing_for_member_named_hasOwnProperty:
  "missing_fields (JObj [(''number'', JStr ''1''), (''name'', JStr ''A''),
                         (''code'', JStr ''c1''), (''type'', JStr ''video''),
                         (''category'', JStr ''x''), (''playlist'', JStr ''p''),
                         (''hasOwnProperty'', JStr ''h'')])
     = []
   \<and> validateItemFormat [JObj [(''number'', JStr ''1''), (''name'', JStr ''A''),
                                (''code'', JStr ''c1''), (''type'', JStr ''video''),
                                (''category'', JStr ''x''), (''playlist'', JStr ''p''),
                                (''hasOwnProperty'', JStr ''h'')]]
     = Inl TypeError
   \<and> main stringify
       \<lparr>lists_dir = Some
          [(''a.json'', Some (JArr [JObj [(''number'', JStr ''1''), (''name'', JStr ''A''),
                                          (''code'', JStr ''c1''), (''type'', JStr ''video''),
                                          (''category'', JStr ''x''), (''playlist'', JStr ''p''),
                                          (''hasOwnProperty'', JStr ''h'')]]))],
        list_json = None, writable = True\<rparr>
     = (\<lparr>lists_dir = Some
          [(''a.json'', Some (JArr [JObj [(''number'', JStr ''1''), (''name'', JStr ''A''),
                                          (''code'', JStr ''c1''), (''type'', JStr ''video''),
                                          (''category'', JStr ''x''), (''playlist'', JStr ''p''),
                                          (''hasOwnProperty'', JStr ''h'')]]))],
        list_json = None, writable = True\<rparr>,
        [Called ''validateItemFormat'', Console_error ''An error occurred:''])"
  by (simp add: main_def mergeData_eq merged_records_def file_records_def parse_errors_def
        validateItemFormat_def validate_item_def currentRequiredKeys_def check_item_eq
        callable_hasOwnProperty_def own_property_def videoRequiredKeys_def enumerate_eq_zip
        missing_fields_def variant_keys_def type_is_audio_def is_string_field_def)

lemma mergeData_cong:
  assumes "lists_dir fs1 = lists_dir fs2"
  shows "mergeData fs1 = mergeData fs2"
  using assms by (simp add: mergeData_eq)

lemma main_cong:
  assumes "lists_dir fs1 = lists_dir fs2" and "writable fs1 = writable fs2"
  shows "snd (main stringify fs1) = snd (main stringify fs2)"
  using assms
  by (simp add: main_def mergeData_eq Let_def split: option.splits sum.splits)

lemma main_written_content:
  assumes "WriteFileSync p d \<in> set (snd (main stringify fs))"
  shows "list_json (fst (main stringify fs)) = Some d"
  using assms
  by (auto simp add: main_def mergeData_eq Let_def parse_errors_no_write
        split: option.splits sum.splits if_splits)

lemma main_keeps_inputs:
  "lists_dir (fst (main stringify fs)) = lists_dir fs
   \<and> writable (fst (main stringify fs)) = writable fs"
  by (simp add: main_def mergeData_eq Let_def split: option.splits sum.splits)

lemma main_files_written:
  assumes "WriteFileSync p d \<in> set (snd (main stringify fs))"
  shows "fst (main stringify fs) = fs\<lparr>list_json := Some d\<rparr>"
  using assms
  by (auto simp add: main_def mergeData_eq Let_def parse_errors_no_write
        split: option.splits sum.splits if_splits)

lemma main_files_kept:
  assumes "\<forall>p d. WriteFileSync p d \<notin> set (snd (main stringify fs))"
  shows "fst (main stringify fs) = fs"
  using assms
  by (auto simp add: main_def mergeData_eq Let_def parse_errors_no_write
        split: option.splits sum.splits if_splits)

lemma main_twice_files:
  "fst (main stringify (fst (main stringify fs))) = fst (main stringify fs)"
proof (cases "\<exists>p d. WriteFileSync p d \<in> set (snd (main stringify fs))")
  case True
  then obtain p d where w: "WriteFileSync p d \<in> set (snd (main stringify fs))" by blast
  let ?fs' = "fst (main stringify fs)"
  from main_cong [of ?fs' fs stringify] main_keeps_inputs [of stringify fs]
  have "snd (main stringify ?fs') = snd (main stringify fs)" by simp
  with w have w': "WriteFileSync p d \<in> set (snd (main stringify ?fs'))" by simp
  from main_files_written [OF w'] main_files_written [OF w] show ?thesis by simp
next
  case False
  then have "fst (main stringify fs) = fs" by (simp add: main_files_kept)
  then show ?thesis by simp
qed

text \<open>
  Claim C8. Two runs on the same directory listing and file contents do the same things in
  the same order and, when they write, leave the same text in the output file, whatever
  the output file held before. A second run after a first one leaves the files as the
  first run left them and repeats its events.
\<close>

theorem main_deterministic:
  "(lists_dir fs1 = lists_dir fs2 \<and> writable fs1 = writable fs2
      \<longrightarrow> snd (main stringify fs1) = snd (main stringify fs2)
          \<and> (\<forall>p d. WriteFileSync p d \<in> set (snd (main stringify fs1))
                \<longrightarrow> list_json (fst (main stringify fs1)) = Some d
                    \<and> list_json (fst (main stringify fs2)) = Some d))
   \<and> main stringify (fst (main stringify fs1)) = (fst (main stringify fs1), snd (main stringify fs1))"
proof (intro conjI impI allI)
  assume a: "lists_dir fs1 = lists_dir fs2 \<and> writable fs1 = writable fs2"
  then show e: "snd (main stringify fs1) = snd (main stringify fs2)"
    using main_cong by blast
  fix p d assume w: "WriteFileSync p d \<in> set (snd (main stringify fs1))"
  then show "list_json (fst (main stringify fs1)) = Some d"
    by (rule main_written_content)
  from w e have "WriteFileSync p d \<in> set (snd (main stringify fs2))" by simp
  then show "list_json (fst (main stringify fs2)) = Some d"
    by (rule main_written_content)
next
  let ?fs' = "fst (main stringify fs1)"
  from main_cong [of ?fs' fs1 stringify] main_keeps_inputs [of stringify fs1]
  have "snd (main stringify ?fs') = snd (main stringify fs1)" by simp
  with main_twice_files [of stringify fs1]
  show "main stringify ?fs' = (?fs', snd (main stringify fs1))"
    by (simp add: prod_eq_iff)
qed

theorem main_deterministic_witness:
  "snd (main (\<lambda>v n. ''[]'') \<lparr>lists_dir = Some [(''a.json'', Some (JArr []))],
                                list_json = None, writable = True\<rparr>)
   = snd (main (\<lambda>v n. ''[]'') \<lparr>lists_dir = Some [(''a.json'', Some (JArr []))],
                                  list_json = Some ''old'', writable = True\<rparr>)
   \<and> list_json (fst (main (\<lambda>v n. ''[]'')
                       \<lparr>lists_dir = Some [(''a.json'', Some (JArr []))],
                        list_json = Some ''old'', writable = True\<rparr>))
     = Some ''[]''"
proof -
  let ?fs1 = "\<lparr>lists_dir = Some [(''a.json'', Some (JArr []))],
               list_json = None, writable = True\<rparr>"
  let ?fs2 = "\<lparr>lists_dir = Some [(''a.json'', Some (JArr []))],
               list_json = Some ''old'', writable = True\<rparr>"
  have h: "lists_dir ?fs1 = lists_dir ?fs2 \<and> writable ?fs1 = writable ?fs2" by simp
  have w: "WriteFileSync savePath ''[]'' \<in> set (snd (main (\<lambda>v n. ''[]'') ?fs1))"
    by (simp add: main_def mergeData_eq merged_records_def parse_errors_def file_records_def
          validateItemFormat_def checkForDuplicateNumber_def enumerate_eq_zip Let_def)
  from main_deterministic [of ?fs1 ?fs2 "\<lambda>v n. ''[]''"] h w show ?thesis by blast
qed

lemma main_reaches_uniqueness_check:
  assumes "lists_dir fs = Some dir"
    and "Called ''checkForDuplicateNumber'' \<in> set (snd (main stringify fs))"
  shows "\<exists>v. validateItemFormat (merged_records dir) = Inr v \<and> invalidItems v = []"
proof (cases "validateItemFormat (merged_records dir)")
  case (Inl e)
  with assms show ?thesis
    by (simp add: main_def mergeData_eq parse_errors_no_call)
next
  case (Inr v)
  show ?thesis
  proof (cases "invalidItems v = []")
    case True
    with Inr show ?thesis by simp
  next
    case False
    from main_invalid [OF assms(1) Inr False, of stringify] assms(2) show ?thesis
      by (simp add: parse_errors_no_call)
  qed
qed

lemma validate_item_passes:
  assumes "validate_item index item = Inr None"
  shows "\<forall>key \<in> set (variant_keys item). is_string_field item key"
proof -
  from assms obtain keys where k: "currentRequiredKeys item = Inr keys"
    by (auto simp add: validate_item_def split: sum.splits)
  from assms validate_item_variant [OF k, of index]
  have "find (\<lambda>k. \<not> is_string_field item k) (variant_keys item) = None"
    by (auto simp add: check_item_eq split: if_splits option.splits)
  then show ?thesis by (simp add: find_None_iff)
qed

lemma validateItemFormat_valid_schema:
  assumes "validateItemFormat data = Inr v" and "invalidItems v = []"
    and "item \<in> set data"
  shows "satisfies_schema item"
proof -
  from assms(1) obtain invalid where f: "forEach_item (enumerate 0 data) [] = Inr invalid"
    and v: "invalidItems v = invalid"
    by (auto simp add: validateItemFormat_def split: sum.splits)
  from assms(3) have "item \<in> set (map snd (enumerate 0 data))"
    by (simp only: map_snd_enumerate)
  then have "item \<in> snd ` set (enumerate 0 data)"
    by (simp only: set_map)
  then obtain p where p: "p \<in> set (enumerate 0 data)" and s: "item = snd p" by blast
  from forEach_item_eq [OF f] p obtain r where r: "validate_item (fst p) (snd p) = Inr r"
    by blast
  from forEach_item_eq [OF f] v assms(2) p
  have "(case validate_item (fst p) (snd p) of Inr (Some e) \<Rightarrow> [e] | _ \<Rightarrow> []) = []"
    by simp
  with r have "r = None" by (cases r) simp_all
  with r s have "validate_item (fst p) item = Inr None" by simp
  from validate_item_passes [OF this] show ?thesis
    by (simp add: satisfies_schema_def)
qed

lemma second_occurrences_subset: "set (second_occurrences xs) \<subseteq> set xs"
proof
  fix x assume "x \<in> set (second_occurrences xs)"
  then have "2 \<le> count_list xs x" by (simp add: set_second_occurrences)
  then have "count_list xs x \<noteq> 0" by simp
  then show "x \<in> set xs" by (simp add: count_list_0_iff)
qed

lemma uniqueness_check_string_numbers_listed:
  assumes "lists_dir fs = Some dir"
    and "Called ''checkForDuplicateNumber'' \<in> set (snd (main stringify fs))"
  shows "(\<forall>item \<in> set (merged_records dir).
            \<exists>s. get_prop item ''number'' = Inr (Some (JStr s)))
         \<and> (\<forall>x \<in> set (numbers (merged_records dir)). \<exists>s. x = String s)
         \<and> (\<exists>c. checkForDuplicateNumber (merged_records dir) = Inr c
               \<and> (\<forall>d \<in> set (duplicates c). \<exists>s. duplicate.channel d = String s))"
proof -
  let ?data = "merged_records dir"
  from main_reaches_uniqueness_check [OF assms] obtain v
    where v: "validateItemFormat ?data = Inr v" and valid: "invalidItems v = []" by blast
  have num: "\<forall>item \<in> set ?data. is_string_field item ''number''"
    using validateItemFormat_valid_schema [OF v valid] satisfies_schema_number by blast
  have 1: "\<forall>item \<in> set ?data. \<exists>s. get_prop item ''number'' = Inr (Some (JStr s))"
  proof
    fix item assume "item \<in> set ?data"
    with num have "is_string_field item ''number''" by blast
    from is_string_fieldD [OF this]
    show "\<exists>s. get_prop item ''number'' = Inr (Some (JStr s))" by auto
  qed
  have 2: "\<forall>x \<in> set (numbers ?data). \<exists>s. x = String s"
  proof
    fix x assume "x \<in> set (numbers ?data)"
    then have "x \<in> set (map (value_at 0) (map number_field ?data))"
      by (simp only: numbers_of_strings [OF num])
    then have "x \<in> (\<lambda>item. value_at 0 (number_field item)) ` set ?data"
      by (simp only: map_map set_map comp_def)
    then obtain item where i: "item \<in> set ?data" and x: "x = value_at 0 (number_field item)"
      by blast
    from i num have "is_string_field item ''number''" by blast
    from number_field_string [OF this] x show "\<exists>s. x = String s" by auto
  qed
  have "JNull \<notin> set ?data"
  proof
    assume "JNull \<in> set ?data"
    with num have "is_string_field JNull ''number''" by blast
    then show False by (simp add: is_string_field_def)
  qed
  from checkForDuplicateNumber_returns [OF this] obtain c
    where c: "checkForDuplicateNumber ?data = Inr c" by blast
  have 3: "\<forall>d \<in> set (duplicates c). \<exists>s. duplicate.channel d = String s"
  proof
    fix d assume "d \<in> set (duplicates c)"
    then have "duplicate.channel d \<in> set (map duplicate.channel (duplicates c))" by simp
    with checkForDuplicateNumber_invariant [OF c]
    have "duplicate.channel d \<in> set (second_occurrences (numbers ?data))"
      by (simp add: duplicates_invariant_def)
    then have "duplicate.channel d \<in> set (numbers ?data)"
      by (rule subsetD [OF second_occurrences_subset])
    with 2 show "\<exists>s. duplicate.channel d = String s" by (rule bspec)
  qed
  with c have "\<exists>c. checkForDuplicateNumber ?data = Inr c
               \<and> (\<forall>d \<in> set (duplicates c). \<exists>s. duplicate.channel d = String s)"
    by (intro exI [of _ c] conjI)
  with 1 2 show ?thesis by (intro conjI)
qed

text \<open>
  Claim C10. In a run that calls the uniqueness validator, every record of the merged
  collection has a string under \<^verbatim>\<open>number\<close>, so every value the validator compares is a
  string and none is \<^verbatim>\<open>undefined\<close>; the validator returns a report, and the channel of
  every entry of the report is a string.
\<close>

theorem uniqueness_check_sees_string_numbers:
  assumes "mergeData fs = (Some mergedData, log)"
    and "Called ''checkForDuplicateNumber'' \<in> set (snd (main stringify fs))"
  shows "(\<forall>item \<in> set mergedData. \<exists>s. get_prop item ''number'' = Inr (Some (JStr s)))
         \<and> (\<forall>x \<in> set (numbers mergedData). \<exists>s. x = String s)
         \<and> (\<exists>c. checkForDuplicateNumber mergedData = Inr c
               \<and> (\<forall>d \<in> set (duplicates c). \<exists>s. duplicate.channel d = String s))"
proof -
  from mergeData_Some [OF assms(1)] obtain dir where d: "lists_dir fs = Some dir"
    and m: "mergedData = merged_records dir" by blast
  from uniqueness_check_string_numbers_listed [OF d assms(2)] show ?thesis
    unfolding m .
qed

theorem uniqueness_check_sees_string_numbers_witness:
  "Called ''checkForDuplicateNumber''
     \<in> set (snd (main (\<lambda>v n. ''text'')
          \<lparr>lists_dir = Some
             [(''a.json'', Some (JArr [JObj [(''number'', JStr ''5''), (''name'', JStr ''A''),
                                             (''code'', JStr ''c''), (''type'', JStr ''audio''),
                                             (''audio'', JStr ''u'')],
                                       JObj [(''number'', JStr ''5''), (''name'', JStr ''A''),
                                             (''code'', JStr ''c''), (''type'', JStr ''audio''),
                                             (''audio'', JStr ''u'')]]))],
           list_json = None, writable = True\<rparr>))
   \<and> (\<exists>s. get_prop (JObj [(''number'', JStr ''5''), (''name'', JStr ''A''),
                           (''code'', JStr ''c''), (''type'', JStr ''audio''),
                           (''audio'', JStr ''u'')]) ''number''
            = Inr (Some (JStr s)))
   \<and> (\<exists>c. checkForDuplicateNumber
               [JObj [(''number'', JStr ''5''), (''name'', JStr ''A''),
                      (''code'', JStr ''c''), (''type'', JStr ''audio''),
                      (''audio'', JStr ''u'')],
                JObj [(''number'', JStr ''5''), (''name'', JStr ''A''),
                      (''code'', JStr ''c''), (''type'', JStr ''audio''),
                      (''audio'', JStr ''u'')]] = Inr c)"
proof -
  let ?r = "JObj [(''number'', JStr ''5''), (''name'', JStr ''A''),
                  (''code'', JStr ''c''), (''type'', JStr ''audio''), (''audio'', JStr ''u'')]"
  let ?dir = "[(''a.json'', Some (JArr [?r, ?r]))]"
  let ?fs = "\<lparr>lists_dir = Some ?dir, list_json = None, writable = True\<rparr>"
  let ?c = "\<lparr>hasDuplicate = True,
             duplicates = [\<lparr>duplicate.channel = String ''5'', count = 2\<rparr>]\<rparr>"
  have d: "lists_dir ?fs = Some ?dir" by simp
  have m: "merged_records ?dir = [?r, ?r]"
    by (simp add: merged_records_def file_records_def)
  have md: "mergeData ?fs = (Some [?r, ?r], [])"
    by (simp add: mergeData_eq m parse_errors_def)
  have v: "validateItemFormat (merged_records ?dir) = Inr \<lparr>isValid = True, invalidItems = []\<rparr>"
    unfolding m by code_simp
  have c: "checkForDuplicateNumber (merged_records ?dir) = Inr ?c"
    unfolding m by code_simp
  have e: "Called ''checkForDuplicateNumber'' \<in> set (snd (main (\<lambda>v n. ''text'') ?fs))"
    using main_duplicate [OF d v _ c, of "\<lambda>v n. ''text''"] by (simp add: parse_errors_def)
  have r: "?r \<in> set [?r, ?r]" by simp
  from uniqueness_check_sees_string_numbers [OF md e] r e show ?thesis by blast
qed

section \<open>The validators write to their own cells only\<close>

lemma unchanged_below_refl: "unchanged_below n h h"
  by (simp add: unchanged_below_def)

lemma unchanged_below_trans:
  assumes "unchanged_below n h h1" and "unchanged_below n h1 h2"
  shows "unchanged_below n h h2"
  using assms by (simp add: unchanged_below_def)

lemma unchanged_below_append:
  assumes "n \<le> length h"
  shows "unchanged_below n h (h @ [c])"
  using assms by (simp add: unchanged_below_def)

lemma unchanged_below_update:
  assumes "n \<le> a"
  shows "unchanged_below n h (h[a := c])"
  using assms by (simp add: unchanged_below_def)

lemma unchanged_below_length:
  assumes "unchanged_below n h h'" and "n \<le> length h"
  shows "n \<le> length h'"
  using assms by (simp add: unchanged_below_def)

lemma unchanged_below_cell:
  assumes "unchanged_below n h h'" and "a < n" and "n \<le> length h"
  shows "cell_at h' a = cell_at h a"
proof -
  from assms(1) have e: "take n h' = take n h" and l: "length h \<le> length h'"
    by (simp_all add: unchanged_below_def)
  from assms(2) have "h' ! a = take n h' ! a" by simp
  also have "\<dots> = take n h ! a" by (simp only: e)
  also from assms(2) have "\<dots> = h ! a" by simp
  finally have "h' ! a = h ! a" .
  with assms(2) assms(3) l show ?thesis by (simp add: cell_at_def)
qed

lemma push_unchanged:
  assumes "push h a v = Inr h'" and "n \<le> a"
  shows "unchanged_below n h h'"
  using assms
  by (auto simp add: push_def unchanged_below_update split: option.splits cell.splits)

lemma every_store_unchanged:
  assumes "every_store h item keys missingKeys = Inr (h', b)" and "n \<le> missingKeys"
  shows "unchanged_below n h h'"
  using assms
proof (induction keys)
  case Nil
  then show ?case by (simp add: unchanged_below_refl)
next
  case (Cons key keys)
  show ?case
  proof (cases "hasKey_store h item key")
    case (Inl e)
    with Cons.prems show ?thesis by simp
  next
    case (Inr present)
    show ?thesis
    proof (cases present)
      case True
      with Inr Cons show ?thesis by simp
    next
      case False
      with Inr Cons.prems have "push h missingKeys (String key) = Inr h'"
        by (auto split: sum.splits)
      from push_unchanged [OF this Cons.prems(2)] show ?thesis .
    qed
  qed
qed

lemma validate_item_store_unchanged:
  assumes "validate_item_store equals_audio h invalid item = Inr h'"
    and "n \<le> length h" and "n \<le> invalid"
  shows "unchanged_below n h h'"
proof -
  let ?h1 = "h @ [ArrayCell []]"
  let ?mk = "length h"
  have u1: "unchanged_below n h ?h1"
    by (rule unchanged_below_append [OF assms(2)])
  from assms(1) obtain t where t: "get_prop_store ?h1 item ''type'' = Inr t"
    by (cases "get_prop_store ?h1 item ''type''")
       (simp_all add: validate_item_store_def alloc_def)
  from assms(1) t obtain b where b: "equals_audio ?h1 t = Inr b"
    by (cases "equals_audio ?h1 t") (simp_all add: validate_item_store_def alloc_def)
  from assms(1) t b obtain h2 hasAllKeys where
    e: "every_store ?h1 item (if b then audioRequiredKeys else videoRequiredKeys) ?mk
        = Inr (h2, hasAllKeys)"
    by (cases "every_store ?h1 item (if b then audioRequiredKeys else videoRequiredKeys) ?mk")
       (auto simp add: validate_item_store_def alloc_def)
  from assms(1) t b e
  have r: "(if \<not> hasAllKeys then
               (case get_prop_store h2 item ''number'' of
                  Inl e \<Rightarrow> Inl e
                | Inr n \<Rightarrow> push (h2 @ [InvalidItemCell n (Reference ?mk)]) invalid
                            (Reference (length h2)))
             else Inr h2) = Inr h'"
    by (auto simp add: validate_item_store_def alloc_def split: sum.splits if_splits)
  from every_store_unchanged [OF e assms(2)] have u2: "unchanged_below n ?h1 h2" .
  from unchanged_below_trans [OF u1 u2] have u12: "unchanged_below n h h2" .
  show ?thesis
  proof (cases hasAllKeys)
    case True
    with r u12 show ?thesis by simp
  next
    case False
    with r obtain num where
      p: "push (h2 @ [InvalidItemCell num (Reference ?mk)]) invalid (Reference (length h2)) = Inr h'"
      by (auto split: sum.splits)
    from unchanged_below_length [OF u12 assms(2)] have "n \<le> length h2" .
    then have u3: "unchanged_below n h2 (h2 @ [InvalidItemCell num (Reference ?mk)])"
      by (rule unchanged_below_append)
    from push_unchanged [OF p assms(3)]
    have u4: "unchanged_below n (h2 @ [InvalidItemCell num (Reference ?mk)]) h'" .
    from unchanged_below_trans [OF u12 unchanged_below_trans [OF u3 u4]] show ?thesis .
  qed
qed

lemma forEach_store_unchanged:
  assumes "forEach_store equals_audio h data len k invalid = Inr h'"
    and "n \<le> length h" and "n \<le> invalid"
  shows "unchanged_below n h h'"
  using assms
proof (induction equals_audio h data len k invalid rule: forEach_store.induct)
  case (1 equals_audio h data len k invalid)
  show ?case
  proof (cases "k < len")
    case False
    with "1.prems"(1) show ?thesis by (simp add: unchanged_below_refl)
  next
    case True
    note k = this
    show ?thesis
    proof (cases "cell_at h data")
      case None
      with k "1.prems"(1) show ?thesis by simp
    next
      case (Some c)
      show ?thesis
      proof (cases c)
        case (ArrayCell xs)
        note c = Some ArrayCell
        show ?thesis
        proof (cases "k < length xs")
          case False
          with k c "1.prems"(1)
          have "forEach_store equals_audio h data len (Suc k) invalid = Inr h'" by simp
          from "1.IH"(2) [OF k Some ArrayCell False this "1.prems"(2) "1.prems"(3)]
          show ?thesis .
        next
          case True
          with k c "1.prems"(1) obtain h1 where
            v: "validate_item_store equals_audio h invalid (xs ! k) = Inr h1"
            and f: "forEach_store equals_audio h1 data len (Suc k) invalid = Inr h'"
            by (auto split: sum.splits)
          from validate_item_store_unchanged [OF v "1.prems"(2) "1.prems"(3)]
          have u: "unchanged_below n h h1" .
          from unchanged_below_length [OF u "1.prems"(2)] have l: "n \<le> length h1" .
          from "1.IH"(1) [OF k Some ArrayCell True v f l "1.prems"(3)]
          have "unchanged_below n h1 h'" .
          with u show ?thesis by (rule unchanged_below_trans)
        qed
      qed (use k Some "1.prems"(1) in simp_all)
    qed
  qed
qed

lemma validateItemFormat_store_unchanged:
  assumes "validateItemFormat_store equals_audio h data = Inr (h', r)"
  shows "unchanged_below (length h) h h'"
proof -
  let ?h1 = "h @ [ArrayCell []]"
  from assms obtain xs where xs: "cell_at ?h1 data = Some (ArrayCell xs)"
    by (auto simp add: validateItemFormat_store_def alloc_def
          split: option.splits cell.splits)
  from assms xs obtain h2 where
    f: "forEach_store equals_audio ?h1 data (length xs) 0 (length h) = Inr h2"
    by (cases "forEach_store equals_audio ?h1 data (length xs) 0 (length h)")
       (simp_all add: validateItemFormat_store_def alloc_def)
  from assms xs f obtain entries where
    h': "h' = h2 @ [ValidationCell (length entries = 0) (Reference (length h))]"
    and "cell_at h2 (length h) = Some (ArrayCell entries)"
    by (auto simp add: validateItemFormat_store_def alloc_def
          split: option.splits cell.splits)
  have u1: "unchanged_below (length h) h ?h1"
    by (simp add: unchanged_below_append)
  have "unchanged_below (length h) ?h1 h2"
    by (rule forEach_store_unchanged [OF f]) simp_all
  with u1 have u2: "unchanged_below (length h) h h2" by (rule unchanged_below_trans)
  from unchanged_below_length [OF u2] have "length h \<le> length h2" by simp
  then have "unchanged_below (length h) h2 h'"
    unfolding h' by (rule unchanged_below_append)
  with u2 show ?thesis by (rule unchanged_below_trans)
qed


lemma cell_at_update:
  "cell_at (h[a := c]) b = (if b = a \<and> a < length h then Some c else cell_at h b)"
  by (simp add: cell_at_def)

lemma cell_at_append:
  "cell_at (h @ [c]) b = (if b = length h then Some c else cell_at h b)"
  by (auto simp add: cell_at_def nth_append)

lemma find_entry_mem:
  assumes "find_entry h ds n = Some a"
  shows "Reference a \<in> set ds"
  using assms
proof (induction ds)
  case Nil
  then show ?case by simp
next
  case (Cons d ds)
  then show ?case
    by (auto split: jsvalue.splits option.splits cell.splits if_splits)
qed

lemma for_of_body_unchanged:
  assumes "for_of_body h item existing dups = Inr h'"
    and "n \<le> length h" and "n \<le> existing" and "n \<le> dups"
    and "fresh_entries n h dups"
  shows "unchanged_below n h h' \<and> fresh_entries n h' dups"
proof -
  from assms(1) obtain num where "get_prop_store h item ''number'' = Inr num"
    by (cases "get_prop_store h item ''number''") (simp_all add: for_of_body_def)
  note num = this
  from assms(1) num obtain vs where vs: "cell_at h existing = Some (SetCell vs)"
    by (auto simp add: for_of_body_def split: option.splits cell.splits)
  show ?thesis
  proof (cases "num \<in> set vs")
    case False
    with assms(1) num vs have h': "h' = h[existing := SetCell (vs @ [num])]"
      by (simp add: for_of_body_def)
    have "unchanged_below n h h'"
      unfolding h' by (rule unchanged_below_update [OF assms(3)])
    moreover have "fresh_entries n h' dups"
      using assms(5) unfolding h' by (auto simp add: fresh_entries_def cell_at_update)
    ultimately show ?thesis by simp
  next
    case True
    with assms(1) num vs obtain ds where ds: "cell_at h dups = Some (ArrayCell ds)"
      by (auto simp add: for_of_body_def split: option.splits cell.splits)
    from assms(5) ds have fresh: "\<And>a. Reference a \<in> set ds \<Longrightarrow> n \<le> a"
      by (simp add: fresh_entries_def)
    show ?thesis
    proof (cases "find_entry h ds num")
      case (Some a)
      with assms(1) num vs True ds obtain ch c where
        a: "cell_at h a = Some (DuplicateCell ch c)"
        and h': "h' = h[a := DuplicateCell ch (c + 1)]"
        by (auto simp add: for_of_body_def split: option.splits cell.splits)
      from fresh [OF find_entry_mem [OF Some]] have na: "n \<le> a" .
      from a ds have "a \<noteq> dups" by auto
      then have "cell_at h' dups = cell_at h dups"
        unfolding h' by (simp add: cell_at_update)
      with assms(5) have "fresh_entries n h' dups" by (simp add: fresh_entries_def)
      moreover have "unchanged_below n h h'"
        unfolding h' by (rule unchanged_below_update [OF na])
      ultimately show ?thesis by simp
    next
      case None
      let ?h1 = "h @ [DuplicateCell num 2]"
      from assms(1) num vs True ds None
      have p: "push ?h1 dups (Reference (length h)) = Inr h'"
        by (simp add: for_of_body_def alloc_def)
      from ds have "dups < length h" by (simp add: cell_at_def split: if_splits)
      with ds have "cell_at ?h1 dups = Some (ArrayCell ds)"
        by (simp add: cell_at_append)
      with p have h': "h' = ?h1[dups := ArrayCell (ds @ [Reference (length h)])]"
        by (simp add: push_def)
      have u1: "unchanged_below n h ?h1"
        by (rule unchanged_below_append [OF assms(2)])
      have "unchanged_below n ?h1 h'"
        by (rule push_unchanged [OF p assms(4)])
      with u1 have "unchanged_below n h h'" by (rule unchanged_below_trans)
      moreover have "fresh_entries n h' dups"
        using fresh assms(2) \<open>dups < length h\<close> unfolding h'
        by (auto simp add: fresh_entries_def cell_at_update)
      ultimately show ?thesis by simp
    qed
  qed
qed

lemma for_of_store_returns:
  assumes "cell_at h data = Some (ArrayCell xs)" and "data < n"
    and "n \<le> length h" and "n \<le> existing" and "n \<le> dups"
    and "fresh_entries n h dups"
  shows "\<exists>res. for_of_store h data i existing dups = Some res
           \<and> (\<forall>h'. res = Inr h' \<longrightarrow> unchanged_below n h h')"
  using assms
proof (induction "length xs - i" arbitrary: i h)
  case 0
  then have "\<not> i < length xs" by simp
  with "0.prems"(1) show ?case
    by (subst for_of_store.simps) (simp add: unchanged_below_refl)
next
  case (Suc k)
  then have i: "i < length xs" by simp
  show ?case
  proof (cases "for_of_body h (xs ! i) existing dups")
    case (Inl e)
    with Suc.prems(1) i show ?thesis
      by (subst for_of_store.simps) simp
  next
    case (Inr h1)
    from for_of_body_unchanged [OF Inr Suc.prems(3) Suc.prems(4) Suc.prems(5) Suc.prems(6)]
    have u: "unchanged_below n h h1" and f: "fresh_entries n h1 dups" by simp_all
    from unchanged_below_length [OF u Suc.prems(3)] have l: "n \<le> length h1" .
    from unchanged_below_cell [OF u Suc.prems(2) Suc.prems(3)] Suc.prems(1)
    have c: "cell_at h1 data = Some (ArrayCell xs)" by simp
    from Suc.hyps(2) have "k = length xs - Suc i" by simp
    from Suc.hyps(1) [OF this c Suc.prems(2) l Suc.prems(4) Suc.prems(5) f]
    obtain res where r: "for_of_store h1 data (Suc i) existing dups = Some res"
      and ru: "\<forall>h'. res = Inr h' \<longrightarrow> unchanged_below n h1 h'" by blast
    have "for_of_store h data i existing dups = Some res"
      using Suc.prems(1) i Inr r by (subst for_of_store.simps) simp
    moreover have "\<forall>h'. res = Inr h' \<longrightarrow> unchanged_below n h h'"
      using ru u unchanged_below_trans by blast
    ultimately show ?thesis by simp
  qed
qed

lemma for_of_store_fresh_data:
  assumes "length h \<le> data"
  shows "for_of_store (h @ [SetCell [], ArrayCell []]) data 0 (length h) (Suc (length h))
         = (if data = Suc (length h) then Some (Inr (h @ [SetCell [], ArrayCell []]))
            else Some (Inl TypeError))"
  using assms
  by (subst for_of_store.simps) (auto simp add: cell_at_def nth_append)

lemma checkForDuplicateNumber_store_returns:
  "\<exists>res. checkForDuplicateNumber_store h data = Some res
         \<and> (\<forall>h' r. res = Inr (h', r) \<longrightarrow> unchanged_below (length h) h h')"
proof -
  let ?h2 = "h @ [SetCell [], ArrayCell []]"
  let ?existing = "length h"
  let ?dups = "Suc (length h)"
  have d: "cell_at ?h2 ?dups = Some (ArrayCell [])"
    by (simp add: cell_at_def nth_append)
  have u2: "unchanged_below (length h) h ?h2"
    by (simp add: unchanged_below_def)
  have "\<exists>res. for_of_store ?h2 data 0 ?existing ?dups = Some res
           \<and> (\<forall>h'. res = Inr h' \<longrightarrow> unchanged_below (length h) ?h2 h')"
  proof (cases "data < length h")
    case False
    then show ?thesis
      by (simp add: for_of_store_fresh_data unchanged_below_refl)
  next
    case True
    show ?thesis
    proof (cases "cell_at ?h2 data")
      case None
      then show ?thesis by (subst for_of_store.simps) simp
    next
      case (Some c)
      show ?thesis
      proof (cases c)
        case (ArrayCell xs)
        have "fresh_entries (length h) ?h2 ?dups"
          using d by (simp add: fresh_entries_def)
        with for_of_store_returns [of ?h2 data xs "length h" ?existing ?dups 0]
          Some ArrayCell True
        show ?thesis by simp
      qed (use Some in \<open>subst for_of_store.simps, simp\<close>)+
    qed
  qed
  then obtain res where r: "for_of_store ?h2 data 0 ?existing ?dups = Some res"
    and ru: "\<forall>h'. res = Inr h' \<longrightarrow> unchanged_below (length h) ?h2 h'" by blast
  show ?thesis
  proof (cases res)
    case (Inl e)
    with r show ?thesis by (simp add: checkForDuplicateNumber_store_def alloc_def)
  next
    case (Inr h3)
    with ru have "unchanged_below (length h) ?h2 h3" by simp
    with u2 have u3: "unchanged_below (length h) h h3" by (rule unchanged_below_trans)
    from unchanged_below_length [OF u3] have "length h \<le> length h3" by simp
    then have "\<And>c. unchanged_below (length h) h3 (h3 @ [c])"
      by (rule unchanged_below_append)
    with u3 have "\<And>c. unchanged_below (length h) h (h3 @ [c])"
      by (rule unchanged_below_trans)
    with r Inr show ?thesis
      by (auto simp add: checkForDuplicateNumber_store_def alloc_def
            split: option.splits cell.splits)
  qed
qed


text \<open>
  Claim C9. Whatever the store and the address of the collection: when the shape validator
  returns, every cell that was in the store before the call is as it was, so the array of
  the collection and every record are unchanged; the uniqueness validator always comes
  back, and when it returns a report every earlier cell is as it was; and after the two
  calls in a row, as the orchestrator makes them, the store still begins with the store
  the loader left, which is what the writer serializes.
\<close>

theorem validators_leave_store_unchanged:
  "(\<forall>h' r. validateItemFormat_store equals_audio h data = Inr (h', r)
       \<longrightarrow> length h \<le> length h' \<and> take (length h) h' = h)
   \<and> (\<exists>res. checkForDuplicateNumber_store h data = Some res)
   \<and> (\<forall>h' r. checkForDuplicateNumber_store h data = Some (Inr (h', r))
       \<longrightarrow> length h \<le> length h' \<and> take (length h) h' = h)
   \<and> (\<forall>h1 r1 h2 r2. validateItemFormat_store equals_audio h data = Inr (h1, r1)
         \<and> checkForDuplicateNumber_store h1 data = Some (Inr (h2, r2))
       \<longrightarrow> take (length h) h2 = h)"
proof (intro conjI allI impI)
  fix h' r
  assume "validateItemFormat_store equals_audio h data = Inr (h', r)"
  from validateItemFormat_store_unchanged [OF this]
  show "length h \<le> length h'" and "take (length h) h' = h"
    by (simp_all add: unchanged_below_def)
next
  from checkForDuplicateNumber_store_returns [of h data]
  show "\<exists>res. checkForDuplicateNumber_store h data = Some res" by blast
next
  fix h' r
  assume "checkForDuplicateNumber_store h data = Some (Inr (h', r))"
  with checkForDuplicateNumber_store_returns [of h data]
  have "unchanged_below (length h) h h'" by auto
  then show "length h \<le> length h'" and "take (length h) h' = h"
    by (simp_all add: unchanged_below_def)
next
  fix h1 r1 h2 r2
  assume a: "validateItemFormat_store equals_audio h data = Inr (h1, r1)
             \<and> checkForDuplicateNumber_store h1 data = Some (Inr (h2, r2))"
  then have u1: "unchanged_below (length h) h h1"
    using validateItemFormat_store_unchanged by blast
  from a checkForDuplicateNumber_store_returns [of h1 data]
  have u2: "unchanged_below (length h1) h1 h2" by auto
  from u1 have l: "length h \<le> length h1" and t1: "take (length h) h1 = h"
    by (simp_all add: unchanged_below_def)
  from u2 have t2: "take (length h1) h2 = h1" by (simp add: unchanged_below_def)
  from l have "take (length h) h2 = take (length h) (take (length h1) h2)"
    by (simp add: min_def)
  with t1 t2 show "take (length h) h2 = h" by simp
qed

theorem validators_leave_store_unchanged_witness:
  "validateItemFormat_store (\<lambda>h v. Inr (v = String ''audio''))
     [ArrayCell [Reference 1, Reference 2],
      ObjectCell [(''number'', String ''1'')], ObjectCell [(''number'', String ''1'')]] 0
   = Inr ([ArrayCell [Reference 1, Reference 2],
           ObjectCell [(''number'', String ''1'')], ObjectCell [(''number'', String ''1'')],
           ArrayCell [Reference 5, Reference 7],
           ArrayCell [String ''name''], InvalidItemCell (String ''1'') (Reference 4),
           ArrayCell [String ''name''], InvalidItemCell (String ''1'') (Reference 6),
           ValidationCell False (Reference 3)], 8)
   \<and> checkForDuplicateNumber_store
       [ArrayCell [Reference 1, Reference 2],
        ObjectCell [(''number'', String ''1'')], ObjectCell [(''number'', String ''1'')]] 0
     = Some (Inr ([ArrayCell [Reference 1, Reference 2],
                   ObjectCell [(''number'', String ''1'')],
                   ObjectCell [(''number'', String ''1'')],
                   SetCell [String ''1''], ArrayCell [Reference 5],
                   DuplicateCell (String ''1'') 2, CheckCell True (Reference 4)], 6))
   \<and> take 3 [ArrayCell [Reference 1, Reference 2],
               ObjectCell [(''number'', String ''1'')],
               ObjectCell [(''number'', String ''1'')],
               SetCell [String ''1''], ArrayCell [Reference 5],
               DuplicateCell (String ''1'') 2, CheckCell True (Reference 4)]
     = [ArrayCell [Reference 1, Reference 2],
        ObjectCell [(''number'', String ''1'')], ObjectCell [(''number'', String ''1'')]]"
proof -
  let ?h = "[ArrayCell [Reference 1, Reference 2],
             ObjectCell [(''number'', String ''1'')], ObjectCell [(''number'', String ''1'')]]"
  let ?h1 = "[ArrayCell [Reference 1, Reference 2],
           ObjectCell [(''number'', String ''1'')], ObjectCell [(''number'', String ''1'')],
           ArrayCell [Reference 5, Reference 7],
           ArrayCell [String ''name''], InvalidItemCell (String ''1'') (Reference 4),
           ArrayCell [String ''name''], InvalidItemCell (String ''1'') (Reference 6),
           ValidationCell False (Reference 3)]"
  let ?h2 = "[ArrayCell [Reference 1, Reference 2],
                   ObjectCell [(''number'', String ''1'')],
                   ObjectCell [(''number'', String ''1'')],
                   SetCell [String ''1''], ArrayCell [Reference 5],
                   DuplicateCell (String ''1'') 2, CheckCell True (Reference 4)]"
  have v: "validateItemFormat_store (\<lambda>h v. Inr (v = String ''audio'')) ?h 0 = Inr (?h1, 8)"
    by code_simp
  have c: "checkForDuplicateNumber_store ?h 0 = Some (Inr (?h2, 6))"
    by code_simp
  have l: "length ?h = 3" by simp
  from validators_leave_store_unchanged [of "\<lambda>h v. Inr (v = String ''audio'')" ?h 0] c
  have "take (length ?h) ?h2 = ?h" by blast
  with v c l show ?thesis by (simp only:) 
qed

end
